theory Spec2Isabelle
  imports Main
begin

section \<open>Data model of pkg/dag/helper.go\<close>

text \<open>
  A transaction hash (\<^verbatim>\<open>hornet.Hash\<close>) is a byte sequence that is compared byte by byte
  and used, converted to a string, as the key of the bookkeeping maps.
\<close>

type_synonym hash = string

text \<open>
  The four attributes of a transaction that the traversals read through
  \<^verbatim>\<open>cachedTx.GetTransaction()\<close>.
\<close>

record tx =
  txHash :: hash
  trunkHash :: hash
  branchHash :: hash
  isTail :: bool

text \<open>
  The package \<^verbatim>\<open>tangle\<close> is an external collaborator. The three functions of it that
  the traversals call are taken as parameters; they are read-only for the time of one
  traversal call.
\<close>

record tangle =
  GetCachedTransactionOrNil :: "hash \<Rightarrow> tx option"
  SolidEntryPointsContain :: "hash \<Rightarrow> bool"
  GetApproverHashes :: "hash \<Rightarrow> bool \<Rightarrow> hash list"

datatype error =
    ErrOperationAborted
  | ErrTransactionNotFound hash
  | ErrFindAllTailsFailed hash
  | ErrNilDereference
  | ErrCaller string

text \<open>
  What is done to a reference-counted handle: \<^verbatim>\<open>Retain()\<close> (tx +1) and
  \<^verbatim>\<open>Release(force)\<close> (tx -1).
\<close>

datatype handle_op = Retain | Release bool

datatype actor = Engine | Callback

text \<open>
  The observable events of a traversal call, in the order in which they happen:
  a successful \<^verbatim>\<open>GetCachedTransactionOrNil\<close> (tx +1), an operation on a handle by
  the traversal itself or by a callback that was given the handle, the calls of the four
  callbacks with what they returned, and the insertion of a hash into the work list
  of the approver traversal.
\<close>

datatype event =
    Acquire hash
  | Op actor hash handle_op
  | Condition hash "error + bool"
  | Consume hash "error option"
  | Missing hash "error option"
  | SolidEntryPoint hash
  | Enqueue hash

text \<open>
  The callbacks are closures over state of the caller, of type \<open>'c\<close>. The predicate
  and the consumer own the retained handle they are given: they return, besides their Go
  result, the operations they performed on that handle.
\<close>

type_synonym 'c Predicate = "tx \<Rightarrow> 'c \<Rightarrow> (error + bool) \<times> handle_op list \<times> 'c"
type_synonym 'c Consumer = "tx \<Rightarrow> 'c \<Rightarrow> error option \<times> handle_op list \<times> 'c"
type_synonym 'c OnMissingApprovee = "hash \<Rightarrow> 'c \<Rightarrow> error option \<times> 'c"
type_synonym 'c OnSolidEntryPoint = "hash \<Rightarrow> 'c \<Rightarrow> 'c"

text \<open>
  The abort channel is polled once per step with a non-blocking \<^verbatim>\<open>select\<close>;
  \<open>abortSignal k\<close> tells whether the poll number \<open>k\<close> (from 0) finds it signalled.
  A nil channel is never ready: \<open>\<lambda>_. False\<close>.
\<close>

type_synonym AbortSignal = "nat \<Rightarrow> bool"

record 'c run =
  user :: 'c
  trace :: "event list"
  polls :: nat

record 'c approvees = "'c run" +
  stack :: "hash list"
  visited :: "hash \<rightharpoonup> bool"

record 'c approvers = "'c run" +
  queue :: "hash list"
  discovered :: "hash set"

definition emit :: "event list \<Rightarrow> ('c, 'z) run_scheme \<Rightarrow> ('c, 'z) run_scheme" where
  "emit es s = s\<lparr>trace := trace s @ es\<rparr>"

section \<open>Approvee traversal\<close>

text \<open>The loop over \<^verbatim>\<open>approveeHashes\<close> (lines 126 to 144); the flag tells whether
  an approvee was pushed, in which case the step returns nil at once.\<close>

fun scanApprovees :: "tangle \<Rightarrow> 'c OnSolidEntryPoint \<Rightarrow> bool \<Rightarrow> hash list \<Rightarrow>
    'c approvees \<Rightarrow> bool \<times> 'c approvees" where
  "scanApprovees tg onSolidEntryPoint traverseSolidEntryPoints [] s = (False, s)"
| "scanApprovees tg onSolidEntryPoint traverseSolidEntryPoints (approveeHash # hs) s =
    (if visited s approveeHash = None then
       if \<not> SolidEntryPointsContain tg approveeHash then
         (True, s\<lparr>stack := approveeHash # stack s\<rparr>)
       else
         let s1 = emit [SolidEntryPoint approveeHash]
                    (s\<lparr>user := onSolidEntryPoint approveeHash (user s)\<rparr>) in
         if traverseSolidEntryPoints then
           (True, s1\<lparr>stack := approveeHash # stack s1\<rparr>)
         else
           scanApprovees tg onSolidEntryPoint traverseSolidEntryPoints hs
             (s1\<lparr>visited := (visited s1)(approveeHash \<mapsto> False)\<rparr>)
     else scanApprovees tg onSolidEntryPoint traverseSolidEntryPoints hs s)"

text \<open>Lines 118 to 124: the trunk, and the branch when it differs from the trunk.\<close>

definition approveeHashes :: "tx \<Rightarrow> hash list" where
  "approveeHashes cachedTx =
    (if trunkHash cachedTx \<noteq> branchHash cachedTx
     then [trunkHash cachedTx, branchHash cachedTx] else [trunkHash cachedTx])"

text \<open>Lines 111 to 155: what the step does once the memoized predicate result is known.\<close>

definition finishApprovees :: "tangle \<Rightarrow> 'c Consumer \<Rightarrow> 'c OnSolidEntryPoint \<Rightarrow> bool \<Rightarrow>
    tx \<Rightarrow> bool \<Rightarrow> 'c approvees \<Rightarrow> error option \<times> 'c approvees" where
  "finishApprovees tg consumer onSolidEntryPoint traverseSolidEntryPoints cachedTx traverse s =
    (if \<not> traverse then (None, s\<lparr>stack := tl (stack s)\<rparr>)
     else
       case scanApprovees tg onSolidEntryPoint traverseSolidEntryPoints
              (approveeHashes cachedTx) s of
         (True, s1) \<Rightarrow> (None, s1)
       | (False, s1) \<Rightarrow>
           let currentTxHash = hd (stack s1);
               s2 = emit [Op Engine currentTxHash Retain] (s1\<lparr>stack := tl (stack s1)\<rparr>) in
           case consumer cachedTx (user s2) of
             (err, ops, u) \<Rightarrow>
               (err, emit (Consume currentTxHash err # map (Op Callback currentTxHash) ops)
                       (s2\<lparr>user := u\<rparr>)))"

text \<open>Lines 97 to 155: the step after the transaction was loaded, without the deferred
  release.\<close>

definition resolvedApprovees :: "tangle \<Rightarrow> 'c Predicate \<Rightarrow> 'c Consumer \<Rightarrow>
    'c OnSolidEntryPoint \<Rightarrow> bool \<Rightarrow> tx \<Rightarrow> 'c approvees \<Rightarrow> error option \<times> 'c approvees" where
  "resolvedApprovees tg condition consumer onSolidEntryPoint traverseSolidEntryPoints cachedTx s =
    (let currentTxHash = hd (stack s) in
     case visited s currentTxHash of
       Some traverse \<Rightarrow>
         finishApprovees tg consumer onSolidEntryPoint traverseSolidEntryPoints cachedTx traverse s
     | None \<Rightarrow>
         (case condition cachedTx (user s) of
            (r, ops, u) \<Rightarrow>
              let s1 = emit (Op Engine currentTxHash Retain # Condition currentTxHash r #
                             map (Op Callback currentTxHash) ops) (s\<lparr>user := u\<rparr>) in
              (case r of
                 Inl err \<Rightarrow> (Some err, s1)
               | Inr traverse \<Rightarrow>
                   finishApprovees tg consumer onSolidEntryPoint traverseSolidEntryPoints
                     cachedTx traverse
                     (s1\<lparr>visited := (visited s1)(currentTxHash \<mapsto> traverse)\<rparr>))))"

text \<open>\<^verbatim>\<open>processStackApprovees\<close>, lines 73 to 156. The front element of an empty stack
  is nil, and reading its value panics.\<close>

definition processStackApprovees :: "tangle \<Rightarrow> 'c Predicate \<Rightarrow> 'c Consumer \<Rightarrow>
    'c OnMissingApprovee \<Rightarrow> 'c OnSolidEntryPoint \<Rightarrow> bool \<Rightarrow> bool \<Rightarrow> AbortSignal \<Rightarrow>
    'c approvees \<Rightarrow> error option \<times> 'c approvees" where
  "processStackApprovees tg condition consumer onMissingApprovee onSolidEntryPoint forceRelease
      traverseSolidEntryPoints abortSignal s0 =
    (let s = s0\<lparr>polls := Suc (polls s0)\<rparr> in
     if abortSignal (polls s0) then (Some ErrOperationAborted, s)
     else case stack s of
       [] \<Rightarrow> (Some ErrNilDereference, s)
     | currentTxHash # rest \<Rightarrow>
         (case GetCachedTransactionOrNil tg currentTxHash of
            None \<Rightarrow>
              (case onMissingApprovee currentTxHash (user s) of
                 (err, u) \<Rightarrow>
                   (err, emit [Missing currentTxHash err]
                           (s\<lparr>visited := (visited s)(currentTxHash \<mapsto> False),
                              stack := rest, user := u\<rparr>)))
          | Some cachedTx \<Rightarrow>
              (case resolvedApprovees tg condition consumer onSolidEntryPoint
                      traverseSolidEntryPoints cachedTx (emit [Acquire currentTxHash] s) of
                 (err, s1) \<Rightarrow>
                   (err, emit [Op Engine currentTxHash (Release forceRelease)] s1))))"

text \<open>The driving loop of both traversals: \<^verbatim>\<open>for stack.Len() > 0\<close>, returning the
  first error of a step. The result is \<open>None\<close> when the loop runs forever.\<close>

partial_function (option) stackLoop :: "('s \<Rightarrow> hash list) \<Rightarrow> ('s \<Rightarrow> error option \<times> 's) \<Rightarrow>
    's \<Rightarrow> (error option \<times> 's) option" where
  "stackLoop pending step s =
    (if pending s = [] then Some (None, s)
     else case step s of
       (Some err, s1) \<Rightarrow> Some (Some err, s1)
     | (None, s1) \<Rightarrow> stackLoop pending step s1)"

declare stackLoop.simps [code]

text \<open>\<^verbatim>\<open>TraverseApprovees\<close>, lines 162 to 177. The final state is returned with the
  error, to observe the trace and the caller's state.\<close>

definition TraverseApprovees :: "tangle \<Rightarrow> hash \<Rightarrow> 'c Predicate \<Rightarrow> 'c Consumer \<Rightarrow>
    'c OnMissingApprovee \<Rightarrow> 'c OnSolidEntryPoint \<Rightarrow> bool \<Rightarrow> bool \<Rightarrow> AbortSignal \<Rightarrow> 'c \<Rightarrow>
    (error option \<times> 'c approvees) option" where
  "TraverseApprovees tg startTxHash condition consumer onMissingApprovee onSolidEntryPoint
      forceRelease traverseSolidEntryPoints abortSignal u =
    stackLoop stack
      (processStackApprovees tg condition consumer onMissingApprovee onSolidEntryPoint
         forceRelease traverseSolidEntryPoints abortSignal)
      \<lparr>user = u, trace = [], polls = 0, stack = [startTxHash], visited = Map.empty\<rparr>"

section \<open>Approver traversal\<close>

text \<open>The loop over \<^verbatim>\<open>tangle.GetApproverHashes\<close> (lines 222 to 231).\<close>

fun enqueueApprovers :: "hash list \<Rightarrow> 'c approvers \<Rightarrow> 'c approvers" where
  "enqueueApprovers [] s = s"
| "enqueueApprovers (approverHash # hs) s =
    (if approverHash \<in> discovered s then enqueueApprovers hs s
     else enqueueApprovers hs
            (emit [Enqueue approverHash]
               (s\<lparr>discovered := insert approverHash (discovered s),
                  queue := queue s @ [approverHash]\<rparr>)))"

text \<open>Lines 204 to 233: the step after the transaction was loaded, without the deferred
  release.\<close>

definition resolvedApprovers :: "tangle \<Rightarrow> 'c Predicate \<Rightarrow> 'c Consumer \<Rightarrow> bool \<Rightarrow> hash \<Rightarrow>
    tx \<Rightarrow> 'c approvers \<Rightarrow> error option \<times> 'c approvers" where
  "resolvedApprovers tg condition consumer forceRelease currentTxHash cachedTx s =
    (case condition cachedTx (user s) of
       (r, ops, u) \<Rightarrow>
         let s1 = emit (Op Engine currentTxHash Retain # Condition currentTxHash r #
                        map (Op Callback currentTxHash) ops) (s\<lparr>user := u\<rparr>) in
         (case r of
            Inl err \<Rightarrow> (Some err, s1)
          | Inr traverse \<Rightarrow>
              if \<not> traverse then (None, s1)
              else
                (case consumer cachedTx (user s1) of
                   (cerr, cops, cu) \<Rightarrow>
                     let s2 = emit (Op Engine currentTxHash Retain # Consume currentTxHash cerr #
                                    map (Op Callback currentTxHash) cops) (s1\<lparr>user := cu\<rparr>) in
                     (case cerr of
                        Some err \<Rightarrow> (Some err, s2)
                      | None \<Rightarrow>
                          (None, enqueueApprovers
                                   (GetApproverHashes tg currentTxHash forceRelease) s2)))))"

text \<open>\<^verbatim>\<open>processStackApprovers\<close>, lines 181 to 234. The Go variable is called
  \<^verbatim>\<open>stack\<close> here too; it is used as a queue (front removal, back insertion).\<close>

definition processStackApprovers :: "tangle \<Rightarrow> 'c Predicate \<Rightarrow> 'c Consumer \<Rightarrow> bool \<Rightarrow>
    AbortSignal \<Rightarrow> 'c approvers \<Rightarrow> error option \<times> 'c approvers" where
  "processStackApprovers tg condition consumer forceRelease abortSignal s0 =
    (let s = s0\<lparr>polls := Suc (polls s0)\<rparr> in
     if abortSignal (polls s0) then (Some ErrOperationAborted, s)
     else case queue s of
       [] \<Rightarrow> (Some ErrNilDereference, s)
     | currentTxHash # rest \<Rightarrow>
         let s1 = s\<lparr>queue := rest\<rparr> in
         (case GetCachedTransactionOrNil tg currentTxHash of
            None \<Rightarrow> (Some (ErrTransactionNotFound currentTxHash), s1)
          | Some cachedTx \<Rightarrow>
              (case resolvedApprovers tg condition consumer forceRelease currentTxHash cachedTx
                      (emit [Acquire currentTxHash] s1) of
                 (err, s2) \<Rightarrow>
                   (err, emit [Op Engine currentTxHash (Release forceRelease)] s2))))"

text \<open>\<^verbatim>\<open>TraverseApprovers\<close>, lines 239 to 254.\<close>

definition TraverseApprovers :: "tangle \<Rightarrow> hash \<Rightarrow> 'c Predicate \<Rightarrow> 'c Consumer \<Rightarrow> bool \<Rightarrow>
    AbortSignal \<Rightarrow> 'c \<Rightarrow> (error option \<times> 'c approvers) option" where
  "TraverseApprovers tg startTxHash condition consumer forceRelease abortSignal u =
    stackLoop queue
      (processStackApprovers tg condition consumer forceRelease abortSignal)
      \<lparr>user = u, trace = [Enqueue startTxHash], polls = 0, queue = [startTxHash],
       discovered = {startTxHash}\<rparr>"

section \<open>Tail search\<close>

text \<open>The four closures of \<^verbatim>\<open>FindAllTails\<close> (lines 26 to 54); the state they
  share is the map \<^verbatim>\<open>tails\<close>, a set of hashes. Each of the first two releases its
  handle with \<^verbatim>\<open>defer cachedTx.Release(true)\<close>.\<close>

definition tailsCondition :: "hash \<Rightarrow> bool \<Rightarrow> hash set Predicate" where
  "tailsCondition startTxHash skipStartTx cachedTx tails =
    (if skipStartTx \<and> startTxHash = txHash cachedTx then (Inr True, [Release True], tails)
     else if isTail cachedTx then (Inr False, [Release True], insert (txHash cachedTx) tails)
     else (Inr True, [Release True], tails))"

definition tailsConsumer :: "hash set Consumer" where
  "tailsConsumer cachedTx tails = (None, [Release True], tails)"

definition tailsOnMissing :: "hash set OnMissingApprovee" where
  "tailsOnMissing approveeHash tails = (Some (ErrFindAllTailsFailed approveeHash), tails)"

definition tailsOnSolidEntryPoint :: "hash set OnSolidEntryPoint" where
  "tailsOnSolidEntryPoint approveeHash tails = tails"

text \<open>The call of \<^verbatim>\<open>TraverseApprovees\<close> in lines 23 to 54, with the final state of
  the traversal.\<close>

definition FindAllTailsRun :: "tangle \<Rightarrow> hash \<Rightarrow> bool \<Rightarrow> bool \<Rightarrow>
    (error option \<times> hash set approvees) option" where
  "FindAllTailsRun tg startTxHash skipStartTx forceRelease =
    TraverseApprovees tg startTxHash (tailsCondition startTxHash skipStartTx) tailsConsumer
      tailsOnMissing tailsOnSolidEntryPoint True False (\<lambda>_. False) {}"

text \<open>\<^verbatim>\<open>FindAllTails\<close>, lines 19 to 57: \<^verbatim>\<open>return tails, err\<close>.\<close>

definition FindAllTails :: "tangle \<Rightarrow> hash \<Rightarrow> bool \<Rightarrow> bool \<Rightarrow> (hash set \<times> error option) option" where
  "FindAllTails tg startTxHash skipStartTx forceRelease =
    map_option (\<lambda>(err, s). (user s, err)) (FindAllTailsRun tg startTxHash skipStartTx forceRelease)"

section \<open>Example graphs\<close>

text \<open>The chain \<open>A \<rightarrow> B \<rightarrow> C\<close> of single-parent references, where \<open>C\<close> is a tail and
  its approvee \<open>D\<close> is not in the store.\<close>

definition chainABC :: tangle where
  "chainABC =
    \<lparr>GetCachedTransactionOrNil = (\<lambda>h.
        if h = ''A'' then Some \<lparr>txHash = ''A'', trunkHash = ''B'', branchHash = ''B'', isTail = False\<rparr>
        else if h = ''B'' then Some \<lparr>txHash = ''B'', trunkHash = ''C'', branchHash = ''C'', isTail = False\<rparr>
        else if h = ''C'' then Some \<lparr>txHash = ''C'', trunkHash = ''D'', branchHash = ''D'', isTail = True\<rparr>
        else None),
      SolidEntryPointsContain = (\<lambda>h. False),
      GetApproverHashes = (\<lambda>h force.
        if h = ''C'' then [''B''] else if h = ''B'' then [''A''] else [])\<rparr>"

text \<open>The same chain with a start \<open>A\<close> that is itself a tail.\<close>

definition tailABC :: tangle where
  "tailABC =
    \<lparr>GetCachedTransactionOrNil = (\<lambda>h.
        if h = ''A'' then Some \<lparr>txHash = ''A'', trunkHash = ''B'', branchHash = ''B'', isTail = True\<rparr>
        else if h = ''B'' then Some \<lparr>txHash = ''B'', trunkHash = ''C'', branchHash = ''C'', isTail = False\<rparr>
        else if h = ''C'' then Some \<lparr>txHash = ''C'', trunkHash = ''D'', branchHash = ''D'', isTail = True\<rparr>
        else None),
      SolidEntryPointsContain = (\<lambda>h. False),
      GetApproverHashes = (\<lambda>h force.
        if h = ''C'' then [''B''] else if h = ''B'' then [''A''] else [])\<rparr>"

text \<open>A diamond: \<open>A\<close> approves \<open>B\<close> (trunk) and \<open>C\<close> (branch), which both approve the
  solid entry point \<open>D\<close>.\<close>

definition diamond :: tangle where
  "diamond =
    \<lparr>GetCachedTransactionOrNil = (\<lambda>h.
        if h = ''A'' then Some \<lparr>txHash = ''A'', trunkHash = ''B'', branchHash = ''C'', isTail = False\<rparr>
        else if h = ''B'' then Some \<lparr>txHash = ''B'', trunkHash = ''D'', branchHash = ''D'', isTail = False\<rparr>
        else if h = ''C'' then Some \<lparr>txHash = ''C'', trunkHash = ''D'', branchHash = ''D'', isTail = False\<rparr>
        else if h = ''D'' then Some \<lparr>txHash = ''D'', trunkHash = ''G'', branchHash = ''G'', isTail = True\<rparr>
        else None),
      SolidEntryPointsContain = (\<lambda>h. h = ''D''),
      GetApproverHashes = (\<lambda>h force.
        if h = ''D'' then [''B'', ''C''] else if h = ''B'' then [''A'']
        else if h = ''C'' then [''A''] else [])\<rparr>"

text \<open>A transaction \<open>A\<close> whose trunk \<open>B\<close> is a tail and whose branch \<open>M\<close> is not in
  the store.\<close>

definition missingBranch :: tangle where
  "missingBranch =
    \<lparr>GetCachedTransactionOrNil = (\<lambda>h.
        if h = ''A'' then Some \<lparr>txHash = ''A'', trunkHash = ''B'', branchHash = ''M'', isTail = False\<rparr>
        else if h = ''B'' then Some \<lparr>txHash = ''B'', trunkHash = ''C'', branchHash = ''C'', isTail = True\<rparr>
        else None),
      SolidEntryPointsContain = (\<lambda>h. False),
      GetApproverHashes = (\<lambda>h force. if h = ''B'' then [''A''] else [])\<rparr>"

text \<open>Callbacks that accept every transaction and release their handle.\<close>

definition acceptAll :: "unit Predicate" where
  "acceptAll cachedTx u = (Inr True, [Release False], u)"

definition consumeAll :: "unit Consumer" where
  "consumeAll cachedTx u = (None, [Release False], u)"

definition ignoreMissing :: "unit OnMissingApprovee" where
  "ignoreMissing approveeHash u = (None, u)"

definition ignoreSolidEntryPoint :: "unit OnSolidEntryPoint" where
  "ignoreSolidEntryPoint approveeHash u = u"

section \<open>Reading a trace\<close>

text \<open>The hashes inserted into the work list of the approver traversal, in order.\<close>

fun enqueuedHash :: "event \<Rightarrow> hash option" where
  "enqueuedHash (Enqueue h) = Some h"
| "enqueuedHash _ = None"

definition enqueued :: "event list \<Rightarrow> hash list" where
  "enqueued tr = List.map_filter enqueuedHash tr"

text \<open>The hashes on which the predicate was called, in order.\<close>

fun conditionedHash :: "event \<Rightarrow> hash option" where
  "conditionedHash (Condition h r) = Some h"
| "conditionedHash _ = None"

definition conditioned :: "event list \<Rightarrow> hash list" where
  "conditioned tr = List.map_filter conditionedHash tr"

text \<open>The solid entry points reported to the caller, in order.\<close>

fun reportedHash :: "event \<Rightarrow> hash option" where
  "reportedHash (SolidEntryPoint h) = Some h"
| "reportedHash _ = None"

definition reported :: "event list \<Rightarrow> hash list" where
  "reported tr = List.map_filter reportedHash tr"

text \<open>The outline of a trace: the calls of the four callbacks, without the operations on
  handles.\<close>

fun noteworthy :: "event \<Rightarrow> bool" where
  "noteworthy (Condition h r) = True"
| "noteworthy (Consume h c) = True"
| "noteworthy (Missing h c) = True"
| "noteworthy (SolidEntryPoint h) = True"
| "noteworthy _ = False"

definition outline :: "event list \<Rightarrow> event list" where
  "outline tr = filter noteworthy tr"

text \<open>The number of handle acquisitions of a trace (a store resolution that returned a
  handle, or a retain) and the number of releases.\<close>

fun isAcquisition :: "event \<Rightarrow> bool" where
  "isAcquisition (Acquire h) = True"
| "isAcquisition (Op a h Retain) = True"
| "isAcquisition _ = False"

fun isRelease :: "event \<Rightarrow> bool" where
  "isRelease (Op a h (Release force)) = True"
| "isRelease _ = False"

definition acquisitions :: "event list \<Rightarrow> nat" where
  "acquisitions tr = length (filter isAcquisition tr)"

definition releases :: "event list \<Rightarrow> nat" where
  "releases tr = length (filter isRelease tr)"

text \<open>A callback releases the handle it is given: among its operations on the handle
  there is one release more than there are retains.\<close>

definition releasesHandle :: "handle_op list \<Rightarrow> bool" where
  "releasesHandle ops \<longleftrightarrow>
    length (filter (\<lambda>p. p \<noteq> Retain) ops) = Suc (length (filter (\<lambda>p. p = Retain) ops))"

section \<open>Invariants\<close>

text \<open>Approver traversal: no hash was inserted into the work list twice, and the
  inserted hashes are the discovered ones.\<close>

definition approversInv :: "'c approvers \<Rightarrow> bool" where
  "approversInv s \<longleftrightarrow> distinct (enqueued (trace s)) \<and> set (enqueued (trace s)) = discovered s"

text \<open>Approvee traversal: the predicate was called on no hash twice, only on resolvable
  hashes, it returned no error, and the visited map holds what it returned.\<close>

definition condInv :: "tangle \<Rightarrow> 'c approvees \<Rightarrow> bool" where
  "condInv tg s \<longleftrightarrow>
    distinct (conditioned (trace s)) \<and>
    (\<forall>h r. Condition h r \<in> set (trace s) \<longrightarrow>
       GetCachedTransactionOrNil tg h \<noteq> None \<and> (\<exists>b. r = Inr b \<and> visited s h = Some b))"

text \<open>What remains of it after a step in which the predicate returned an error.\<close>

definition condPost :: "'c approvees \<Rightarrow> bool" where
  "condPost s \<longleftrightarrow>
    distinct (conditioned (trace s)) \<and>
    (\<forall>h b. Condition h (Inr b) \<in> set (trace s) \<longrightarrow> visited s h = Some b)"

text \<open>Tail search: the map \<^verbatim>\<open>tails\<close> holds the hashes on which the predicate
  returned false, which is when it records one.\<close>

definition tailsInv :: "hash set approvees \<Rightarrow> bool" where
  "tailsInv s \<longleftrightarrow> user s = {h. Condition h (Inr False) \<in> set (trace s)}"

text \<open>What the loop over the approvee hashes \<open>hs\<close> does to a state: it reports the solid
  entry points \<open>rs\<close> among them that have no entry in the visited map, marks them as not to
  be traversed unless solid entry points are traversed, and either pushes an approvee that
  has no entry or leaves all of them with an entry.\<close>

definition scanEffect :: "tangle \<Rightarrow> bool \<Rightarrow> hash list \<Rightarrow> 'c approvees \<Rightarrow> bool \<Rightarrow> 'c approvees \<Rightarrow>
    hash list \<Rightarrow> bool" where
  "scanEffect tg tsep hs s b s1 rs \<longleftrightarrow>
    trace s1 = trace s @ map SolidEntryPoint rs \<and>
    polls s1 = polls s \<and>
    (\<forall>h. visited s1 h = (if h \<in> set rs \<and> \<not> tsep then Some False else visited s h)) \<and>
    distinct rs \<and> set rs \<subseteq> set hs \<and>
    (\<forall>h\<in>set rs. SolidEntryPointsContain tg h \<and> visited s h = None) \<and>
    (tsep \<longrightarrow> (\<forall>h\<in>set rs. b \<and> stack s1 = h # stack s)) \<and>
    (if b then \<exists>a\<in>set hs. stack s1 = a # stack s \<and> visited s1 a = None \<and>
                 (SolidEntryPointsContain tg a \<longrightarrow> a \<in> set rs)
     else stack s1 = stack s \<and> set hs \<subseteq> dom (visited s1))"

text \<open>A property \<open>P x pre\<close> holds of every consumed hash \<open>x\<close> and the events \<open>pre\<close> that
  precede the call of the consumer on it; \<open>pre\<close> are the events before the list.\<close>

fun consumedAfter :: "(hash \<Rightarrow> event list \<Rightarrow> bool) \<Rightarrow> event list \<Rightarrow> event list \<Rightarrow> bool" where
  "consumedAfter P pre [] = True"
| "consumedAfter P pre (Consume x c # es) = (P x pre \<and> consumedAfter P (pre @ [Consume x c]) es)"
| "consumedAfter P pre (e # es) = consumedAfter P (pre @ [e]) es"

text \<open>The solid entry points among the approvees of \<open>x\<close>, the start hash apart, were
  reported in \<open>pre\<close>.\<close>

definition boundaryReported :: "tangle \<Rightarrow> hash \<Rightarrow> hash \<Rightarrow> event list \<Rightarrow> bool" where
  "boundaryReported tg startTxHash x pre \<longleftrightarrow>
    (\<forall>t a. GetCachedTransactionOrNil tg x = Some t \<longrightarrow> a \<in> set (approveeHashes t) \<longrightarrow>
       SolidEntryPointsContain tg a \<longrightarrow> a \<noteq> startTxHash \<longrightarrow> a \<in> set (reported pre))"

text \<open>Approvee traversal: no hash was reported twice; a reported hash is a solid entry
  point that has an entry in the visited map or is on the stack; a solid entry point with an
  entry or on the stack is the start or was reported; all of the stack but its front has an
  entry; a hash was consumed after the solid entry points among its approvees were
  reported.\<close>

definition sepInv :: "tangle \<Rightarrow> hash \<Rightarrow> 'c approvees \<Rightarrow> bool" where
  "sepInv tg startTxHash s \<longleftrightarrow>
    distinct (reported (outline (trace s))) \<and>
    (\<forall>h\<in>set (reported (outline (trace s))).
       SolidEntryPointsContain tg h \<and> (visited s h \<noteq> None \<or> h \<in> set (stack s))) \<and>
    (\<forall>h. visited s h \<noteq> None \<or> h \<in> set (stack s) \<longrightarrow> SolidEntryPointsContain tg h \<longrightarrow>
       h = startTxHash \<or> h \<in> set (reported (outline (trace s)))) \<and>
    (\<forall>h\<in>set (tl (stack s)). visited s h \<noteq> None) \<and>
    consumedAfter (boundaryReported tg startTxHash) [] (outline (trace s))"

text \<open>The approvee references of the store: \<open>x\<close> references its trunk and its branch.\<close>

definition approveeRel :: "tangle \<Rightarrow> (hash \<times> hash) set" where
  "approveeRel tg =
    {(x, a). \<exists>t. GetCachedTransactionOrNil tg x = Some t \<and> a \<in> set (approveeHashes t)}"

text \<open>An approvee \<open>a\<close> is settled by the events \<open>pre\<close>: it was consumed, found missing,
  excluded by the predicate, or reported as a solid entry point that is not traversed.\<close>

definition settled :: "bool \<Rightarrow> hash \<Rightarrow> event list \<Rightarrow> bool" where
  "settled traverseSolidEntryPoints a pre \<longleftrightarrow>
    (\<exists>c. Consume a c \<in> set pre) \<or> (\<exists>c. Missing a c \<in> set pre) \<or>
    Condition a (Inr False) \<in> set pre \<or>
    (\<not> traverseSolidEntryPoints \<and> SolidEntryPoint a \<in> set pre)"

definition approveesSettled :: "tangle \<Rightarrow> bool \<Rightarrow> hash \<Rightarrow> event list \<Rightarrow> bool" where
  "approveesSettled tg traverseSolidEntryPoints x pre \<longleftrightarrow>
    (\<forall>t a. GetCachedTransactionOrNil tg x = Some t \<longrightarrow> a \<in> set (approveeHashes t) \<longrightarrow>
       settled traverseSolidEntryPoints a pre)"

text \<open>Approvee traversal: every hash on the stack is reached, along approvee references, from
  the hashes below it; a hash with entry true is on the stack or was consumed; a hash with
  entry false was found missing, excluded or reported; a hash was consumed after its
  approvees were settled.\<close>

definition orderInv :: "tangle \<Rightarrow> bool \<Rightarrow> 'c approvees \<Rightarrow> bool" where
  "orderInv tg traverseSolidEntryPoints s \<longleftrightarrow>
    sorted_wrt (\<lambda>a b. (b, a) \<in> (approveeRel tg)\<^sup>+) (stack s) \<and>
    (\<forall>h. visited s h = Some True \<longrightarrow>
       h \<in> set (stack s) \<or> (\<exists>c. Consume h c \<in> set (outline (trace s)))) \<and>
    (\<forall>h. visited s h = Some False \<longrightarrow>
       (\<exists>c. Missing h c \<in> set (outline (trace s))) \<or>
       Condition h (Inr False) \<in> set (outline (trace s)) \<or>
       (\<not> traverseSolidEntryPoints \<and> SolidEntryPoint h \<in> set (outline (trace s)))) \<and>
    consumedAfter (approveesSettled tg traverseSolidEntryPoints) [] (outline (trace s))"

text \<open>The hashes an approvee traversal can meet: the start and the approvees of the
  transactions of the store. The work left in a state: two for every such hash that has
  no entry in the visited map and is not on the stack, one for every element of the
  stack.\<close>

definition approveeUniverse :: "tangle \<Rightarrow> hash \<Rightarrow> hash set" where
  "approveeUniverse tg startTxHash = insert startTxHash (Range (approveeRel tg))"

definition pendingWork :: "tangle \<Rightarrow> hash \<Rightarrow> 'c approvees \<Rightarrow> nat" where
  "pendingWork tg startTxHash s =
    2 * card (approveeUniverse tg startTxHash - dom (visited s) - set (stack s)) +
    length (stack s)"

text \<open>All of the stack but its front has an entry in the visited map.\<close>

definition tailVisited :: "'c approvees \<Rightarrow> bool" where
  "tailVisited s \<longleftrightarrow> (\<forall>h\<in>set (tl (stack s)). visited s h \<noteq> None)"

text \<open>The hashes an approver traversal can meet, and the work left in a state of it.\<close>

definition approverUniverse :: "tangle \<Rightarrow> bool \<Rightarrow> hash \<Rightarrow> hash set" where
  "approverUniverse tg forceRelease startTxHash =
    insert startTxHash (\<Union>h. set (GetApproverHashes tg h forceRelease))"

definition pendingApprovers :: "hash set \<Rightarrow> 'c approvers \<Rightarrow> nat" where
  "pendingApprovers U s = 2 * card (U - discovered s) + length (queue s)"

section \<open>The driving loop\<close>

text \<open>A loop that returns established \<open>Q\<close>, if every step that returns nil keeps the
  invariant \<open>I\<close>, and \<open>Q\<close> follows from \<open>I\<close> at the exit with an empty work list and
  after a step that returns an error.\<close>

lemma stackLoop_rule_aux:
  assumes run: "stackLoop pending step s = Some y"
    and I: "\<And>s s1. I s \<Longrightarrow> pending s \<noteq> [] \<Longrightarrow> step s = (None, s1) \<Longrightarrow> I s1"
    and Q0: "\<And>s. I s \<Longrightarrow> pending s = [] \<Longrightarrow> Q None s"
    and Q1: "\<And>s e s1. I s \<Longrightarrow> pending s \<noteq> [] \<Longrightarrow> step s = (Some e, s1) \<Longrightarrow> Q (Some e) s1"
  shows "I s \<longrightarrow> Q (fst y) (snd y)"
proof -
  have "pending = pending \<longrightarrow> step = step \<longrightarrow> I s \<longrightarrow> Q (fst y) (snd y)"
  proof (rule stackLoop.raw_induct [where P = "\<lambda>p st s y. p = pending \<longrightarrow> st = step \<longrightarrow> I s
      \<longrightarrow> Q (fst y) (snd y)", OF _ run])
    fix loop p st s y
    assume IH: "\<And>p st s y. loop p st s = Some y \<Longrightarrow> p = pending \<longrightarrow> st = step \<longrightarrow> I s
        \<longrightarrow> Q (fst y) (snd y)"
      and unf: "(if p s = [] then Some (None, s)
         else case st s of (None, s1) \<Rightarrow> loop p st s1 | (Some err, s1) \<Rightarrow> Some (Some err, s1)) = Some y"
    show "p = pending \<longrightarrow> st = step \<longrightarrow> I s \<longrightarrow> Q (fst y) (snd y)"
    proof (intro impI)
      assume eq: "p = pending" "st = step" and inv: "I s"
      show "Q (fst y) (snd y)"
      proof (cases "pending s = []")
        case True
        with unf eq have "y = (None, s)" by simp
        with Q0 [OF inv True] show ?thesis by simp
      next
        case False
        obtain e s1 where st: "step s = (e, s1)" by (cases "step s")
        show ?thesis
        proof (cases e)
          case None
          with unf eq False st have "loop pending step s1 = Some y" by simp
          moreover from I [OF inv False] st None have "I s1" by simp
          ultimately show ?thesis using IH by blast
        next
          case (Some err)
          with unf eq False st have "y = (Some err, s1)" by simp
          with Q1 [OF inv False] st Some show ?thesis by simp
        qed
      qed
    qed
  qed
  then show ?thesis by simp
qed

lemma stackLoop_rule:
  assumes "stackLoop pending step s = Some (r, s')" and "I s"
    and "\<And>s s1. I s \<Longrightarrow> pending s \<noteq> [] \<Longrightarrow> step s = (None, s1) \<Longrightarrow> I s1"
    and "\<And>s. I s \<Longrightarrow> pending s = [] \<Longrightarrow> Q None s"
    and "\<And>s e s1. I s \<Longrightarrow> pending s \<noteq> [] \<Longrightarrow> step s = (Some e, s1) \<Longrightarrow> Q (Some e) s1"
  shows "Q r s'"
  using stackLoop_rule_aux [where I = I and Q = Q, OF assms(1,3,4,5)] assms(2) by simp

lemma stackLoop_invariant:
  assumes "stackLoop pending step s = Some (r, s')" and "I s"
    and "\<And>s e s1. I s \<Longrightarrow> pending s \<noteq> [] \<Longrightarrow> step s = (e, s1) \<Longrightarrow> I s1"
  shows "I s'"
  by (rule stackLoop_rule [where I = I and Q = "\<lambda>_. I", OF assms(1,2)]) (auto intro: assms(3))

lemmas approvees_defs = TraverseApprovees_def processStackApprovees_def resolvedApprovees_def
  finishApprovees_def approveeHashes_def emit_def Let_def

lemmas approvers_defs = TraverseApprovers_def processStackApprovers_def resolvedApprovers_def
  emit_def Let_def

lemmas tails_defs = FindAllTails_def FindAllTailsRun_def tailsCondition_def tailsConsumer_def
  tailsOnMissing_def tailsOnSolidEntryPoint_def

lemmas example_defs = chainABC_def tailABC_def diamond_def missingBranch_def acceptAll_def consumeAll_def
  ignoreMissing_def ignoreSolidEntryPoint_def

section \<open>Cancellation\<close>

text \<open>
  Claim C7. When the abort signal is found signalled by the first poll, both traversals
  return the operation-aborted error; the trace then holds no call of the predicate or of the
  consumer (it is empty, but for the initial insertion of the start hash by the approver
  traversal) and the caller's state is untouched. More generally a step that finds the signal
  returns the error and changes nothing but the number of polls: the poll comes before
  anything is resolved, evaluated or consumed.
\<close>

theorem abort_checked_first:
  "(abortSignal 0 \<longrightarrow>
      TraverseApprovees tg startTxHash condition consumer onMissingApprovee onSolidEntryPoint
        forceRelease traverseSolidEntryPoints abortSignal u =
      Some (Some ErrOperationAborted,
            \<lparr>user = u, trace = [], polls = 1, stack = [startTxHash], visited = Map.empty\<rparr>) \<and>
      TraverseApprovers tg startTxHash condition consumer forceRelease abortSignal u =
      Some (Some ErrOperationAborted,
            \<lparr>user = u, trace = [Enqueue startTxHash], polls = 1, queue = [startTxHash],
             discovered = {startTxHash}\<rparr>)) \<and>
   (abortSignal (polls sa) \<longrightarrow>
      processStackApprovees tg condition consumer onMissingApprovee onSolidEntryPoint
        forceRelease traverseSolidEntryPoints abortSignal sa =
      (Some ErrOperationAborted, sa\<lparr>polls := Suc (polls sa)\<rparr>)) \<and>
   (abortSignal (polls sb) \<longrightarrow>
      processStackApprovers tg condition consumer forceRelease abortSignal sb =
      (Some ErrOperationAborted, sb\<lparr>polls := Suc (polls sb)\<rparr>))"
  by (simp add: TraverseApprovees_def TraverseApprovers_def stackLoop.simps
      processStackApprovees_def processStackApprovers_def)

theorem abort_checked_first_witness:
  "(\<lambda>k. True) (0::nat) \<and>
   TraverseApprovees chainABC ''A'' (tailsCondition ''A'' False) tailsConsumer tailsOnMissing
     tailsOnSolidEntryPoint True False (\<lambda>k. True) {} =
   Some (Some ErrOperationAborted,
         \<lparr>user = {}, trace = [], polls = 1, stack = [''A''], visited = Map.empty\<rparr>) \<and>
   TraverseApprovers chainABC ''A'' (tailsCondition ''A'' False) tailsConsumer True (\<lambda>k. True) {} =
   Some (Some ErrOperationAborted,
         \<lparr>user = {}, trace = [Enqueue ''A''], polls = 1, queue = [''A''], discovered = {''A''}\<rparr>) \<and>
   processStackApprovees chainABC (tailsCondition ''A'' False) tailsConsumer tailsOnMissing
     tailsOnSolidEntryPoint True False (\<lambda>k. True)
     \<lparr>user = {}, trace = [], polls = 3, stack = [''B'', ''A''], visited = [''A'' \<mapsto> True]\<rparr> =
   (Some ErrOperationAborted,
    \<lparr>user = {}, trace = [], polls = 4, stack = [''B'', ''A''], visited = [''A'' \<mapsto> True]\<rparr>) \<and>
   processStackApprovers chainABC (tailsCondition ''A'' False) tailsConsumer True (\<lambda>k. True)
     \<lparr>user = {}, trace = [Enqueue ''C''], polls = 7, queue = [''C''], discovered = {''C''}\<rparr> =
   (Some ErrOperationAborted,
    \<lparr>user = {}, trace = [Enqueue ''C''], polls = 8, queue = [''C''], discovered = {''C''}\<rparr>)"
  using abort_checked_first [where abortSignal = "\<lambda>k. True" and tg = chainABC
      and startTxHash = "''A''" and condition = "tailsCondition ''A'' False"
      and consumer = tailsConsumer and onMissingApprovee = tailsOnMissing
      and onSolidEntryPoint = tailsOnSolidEntryPoint and forceRelease = True
      and traverseSolidEntryPoints = False and u = "{}"
      and sa = "\<lparr>user = {}, trace = [], polls = 3, stack = [''B'', ''A''],
                 visited = [''A'' \<mapsto> True]\<rparr>"
      and sb = "\<lparr>user = {}, trace = [Enqueue ''C''], polls = 7, queue = [''C''],
                 discovered = {''C''}\<rparr>"]
  by simp

section \<open>Unresolvable transactions\<close>

text \<open>
  Claim C6. When the front hash cannot be resolved in the store, the step of the approver
  traversal has already removed it from the queue and returns a transaction-not-found error
  carrying the hash, with which the traversal returns. The step of the approvee traversal
  marks the hash as not to be traversed, removes it from the stack and calls the
  missing-approvee callback with it; the traversal returns the callback's error if there is
  one, and goes on from the new state otherwise.
\<close>

theorem missing_transaction:
  "(\<not> abortSignal (polls sb) \<and> queue sb = h # rest \<and> GetCachedTransactionOrNil tg h = None \<longrightarrow>
      processStackApprovers tg condition consumer forceRelease abortSignal sb =
        (Some (ErrTransactionNotFound h), sb\<lparr>polls := Suc (polls sb), queue := rest\<rparr>) \<and>
      stackLoop queue (processStackApprovers tg condition consumer forceRelease abortSignal) sb =
        Some (Some (ErrTransactionNotFound h), sb\<lparr>polls := Suc (polls sb), queue := rest\<rparr>)) \<and>
   (\<not> abortSignal (polls sa) \<and> stack sa = h # rest \<and> GetCachedTransactionOrNil tg h = None \<and>
    onMissingApprovee h (user sa) = (err, u) \<and>
    sa1 = sa\<lparr>polls := Suc (polls sa), visited := (visited sa)(h \<mapsto> False), stack := rest,
             user := u, trace := trace sa @ [Missing h err]\<rparr> \<and>
    step = processStackApprovees tg condition consumer onMissingApprovee onSolidEntryPoint
             forceRelease traverseSolidEntryPoints abortSignal \<longrightarrow>
      step sa = (err, sa1) \<and>
      (case err of
         Some e \<Rightarrow> stackLoop stack step sa = Some (Some e, sa1)
       | None \<Rightarrow> stackLoop stack step sa = stackLoop stack step sa1))"
proof (intro conjI impI)
  assume a: "\<not> abortSignal (polls sb) \<and> queue sb = h # rest \<and> GetCachedTransactionOrNil tg h = None"
  then show st: "processStackApprovers tg condition consumer forceRelease abortSignal sb =
        (Some (ErrTransactionNotFound h), sb\<lparr>polls := Suc (polls sb), queue := rest\<rparr>)"
    by (simp add: processStackApprovers_def)
  from a show "stackLoop queue (processStackApprovers tg condition consumer forceRelease abortSignal) sb =
        Some (Some (ErrTransactionNotFound h), sb\<lparr>polls := Suc (polls sb), queue := rest\<rparr>)"
    by (subst stackLoop.simps) (simp add: st)
next
  assume a: "\<not> abortSignal (polls sa) \<and> stack sa = h # rest \<and> GetCachedTransactionOrNil tg h = None \<and>
    onMissingApprovee h (user sa) = (err, u) \<and>
    sa1 = sa\<lparr>polls := Suc (polls sa), visited := (visited sa)(h \<mapsto> False), stack := rest,
             user := u, trace := trace sa @ [Missing h err]\<rparr> \<and>
    step = processStackApprovees tg condition consumer onMissingApprovee onSolidEntryPoint
             forceRelease traverseSolidEntryPoints abortSignal"
  then show st: "step sa = (err, sa1)"
    by (simp add: processStackApprovees_def emit_def)
  show "case err of
         Some e \<Rightarrow> stackLoop stack step sa = Some (Some e, sa1)
       | None \<Rightarrow> stackLoop stack step sa = stackLoop stack step sa1"
  proof (cases err)
    case None
    with a st show ?thesis by (subst stackLoop.simps) simp
  next
    case (Some e)
    with a st show ?thesis by (subst stackLoop.simps) simp
  qed
qed

theorem missing_transaction_witness:
  "stackLoop queue (processStackApprovers chainABC (tailsCondition ''D'' False) tailsConsumer True (\<lambda>k. False))
     \<lparr>user = {}, trace = [Enqueue ''D''], polls = 0, queue = [''D''], discovered = {''D''}\<rparr> =
   Some (Some (ErrTransactionNotFound ''D''),
         \<lparr>user = {}, trace = [Enqueue ''D''], polls = 1, queue = [], discovered = {''D''}\<rparr>) \<and>
   processStackApprovees chainABC (tailsCondition ''D'' False) tailsConsumer tailsOnMissing
     tailsOnSolidEntryPoint True False (\<lambda>k. False)
     \<lparr>user = {}, trace = [], polls = 0, stack = [''D''], visited = Map.empty\<rparr> =
   (Some (ErrFindAllTailsFailed ''D''),
    \<lparr>user = {}, trace = [Missing ''D'' (Some (ErrFindAllTailsFailed ''D''))], polls = 1,
     stack = [], visited = [''D'' \<mapsto> False]\<rparr>)"
  using missing_transaction [where abortSignal = "\<lambda>k. False"
      and sb = "\<lparr>user = {}, trace = [Enqueue ''D''], polls = 0, queue = [''D''], discovered = {''D''}\<rparr>"
      and h = "''D''" and rest = "[]" and tg = chainABC and condition = "tailsCondition ''D'' False"
      and consumer = tailsConsumer and forceRelease = True
      and sa = "\<lparr>user = {}, trace = [], polls = 0, stack = [''D''], visited = Map.empty\<rparr>"
      and onMissingApprovee = tailsOnMissing and err = "Some (ErrFindAllTailsFailed ''D'')"
      and u = "{}"
      and ?sa1.0 = "\<lparr>user = {}, trace = [Missing ''D'' (Some (ErrFindAllTailsFailed ''D''))],
        polls = 1, stack = [], visited = [''D'' \<mapsto> False]\<rparr>"
      and step = "processStackApprovees chainABC (tailsCondition ''D'' False) tailsConsumer
         tailsOnMissing tailsOnSolidEntryPoint True False (\<lambda>k. False)"
      and onSolidEntryPoint = tailsOnSolidEntryPoint and traverseSolidEntryPoints = False]
  by (simp add: chainABC_def tailsOnMissing_def)

section \<open>The release flag of the tail search\<close>

text \<open>
  Claim C3 says that the \<^verbatim>\<open>forceRelease\<close> argument of \<^verbatim>\<open>FindAllTails\<close> is the flag
  with which the traversal releases the handles it resolved. The run below is called with
  \<^verbatim>\<open>forceRelease = false\<close>, and the traversal itself releases the handle of \<open>C\<close> with
  \<^verbatim>\<open>Release(true)\<close>: line 54 passes the constant \<^verbatim>\<open>true\<close>.
\<close>

theorem find_all_tails_ignores_forceRelease:
  "map_option (\<lambda>(err, s). (err, trace s)) (FindAllTailsRun chainABC ''C'' False False) =
   Some (None, [Acquire ''C'', Op Engine ''C'' Retain, Condition ''C'' (Inr False),
                Op Callback ''C'' (Release True), Op Engine ''C'' (Release True)])"
  by (simp add: FindAllTailsRun_def TraverseApprovees_def stackLoop.simps processStackApprovees_def
      resolvedApprovees_def finishApprovees_def approveeHashes_def emit_def chainABC_def
      tailsCondition_def Let_def)

section \<open>Tail search on a chain\<close>

text \<open>Symbolic runs of the tail search: on a chain of three distinct transactions, and
  from a start that is a tail.\<close>

lemma chain_run:
  assumes A: "GetCachedTransactionOrNil tg A = Some ta" "txHash ta = A" "trunkHash ta = B"
      "branchHash ta = B"
    and B: "GetCachedTransactionOrNil tg B = Some tb" "txHash tb = B" "trunkHash tb = C"
      "branchHash tb = C" "\<not> isTail tb"
    and C: "GetCachedTransactionOrNil tg C = Some tc" "txHash tc = C" "isTail tc"
    and sep: "\<not> SolidEntryPointsContain tg B" "\<not> SolidEntryPointsContain tg C"
    and skip: "skipStartTx \<or> \<not> isTail ta"
    and AC: "A \<noteq> C"
  shows "FindAllTails tg A skipStartTx forceRelease = Some ({C}, None)"
proof -
  from B C have BC: "B \<noteq> C" "C \<noteq> B" by auto
  from A B C BC have AB: "A \<noteq> B" "B \<noteq> A" by auto
  from AC have CA: "C \<noteq> A" by simp
  show ?thesis
    using A B C sep skip AC CA BC AB
    by (auto simp add: tails_defs approvees_defs stackLoop.simps)
qed

lemma tail_start_run:
  assumes A: "GetCachedTransactionOrNil tg A = Some ta" "txHash ta = A" "isTail ta"
  shows "FindAllTailsRun tg A False forceRelease =
    Some (None, \<lparr>user = {A},
      trace = [Acquire A, Op Engine A Retain, Condition A (Inr False),
               Op Callback A (Release True), Op Engine A (Release True)],
      polls = 1, stack = [], visited = [A \<mapsto> False]\<rparr>)"
  using A by (simp add: tails_defs approvees_defs stackLoop.simps)

text \<open>
  Claim C4. On a chain \<open>A \<rightarrow> B \<rightarrow> C\<close> of resolvable transactions (trunk and branch are the
  same hash, and neither \<open>B\<close> nor \<open>C\<close> is a solid entry point), where \<open>C\<close> is a tail and
  \<open>A\<close>, \<open>B\<close> are not, the tail search from \<open>A\<close> without \<^verbatim>\<open>skipStartTx\<close> returns exactly
  \<open>{C}\<close> and no error. When the start \<open>A'\<close> is a tail, the search without \<^verbatim>\<open>skipStartTx\<close>
  returns exactly \<open>{A'}\<close>, after one step that resolves \<open>A'\<close> only and pushes none of its
  approvees; with \<^verbatim>\<open>skipStartTx\<close> the search does not record \<open>A'\<close> and goes on to the
  tail \<open>C'\<close> in its past cone.
\<close>

theorem find_all_tails_chain:
  "(GetCachedTransactionOrNil tg A = Some ta \<and> txHash ta = A \<and> trunkHash ta = B \<and>
    branchHash ta = B \<and> \<not> isTail ta \<and>
    GetCachedTransactionOrNil tg B = Some tb \<and> txHash tb = B \<and> trunkHash tb = C \<and>
    branchHash tb = C \<and> \<not> isTail tb \<and>
    GetCachedTransactionOrNil tg C = Some tc \<and> txHash tc = C \<and> isTail tc \<and>
    \<not> SolidEntryPointsContain tg B \<and> \<not> SolidEntryPointsContain tg C \<longrightarrow>
      FindAllTails tg A False forceRelease = Some ({C}, None)) \<and>
   (GetCachedTransactionOrNil tg A' = Some ta' \<and> txHash ta' = A' \<and> isTail ta' \<longrightarrow>
      FindAllTails tg A' False forceRelease = Some ({A'}, None) \<and>
      FindAllTailsRun tg A' False forceRelease =
        Some (None, \<lparr>user = {A'},
          trace = [Acquire A', Op Engine A' Retain, Condition A' (Inr False),
                   Op Callback A' (Release True), Op Engine A' (Release True)],
          polls = 1, stack = [], visited = [A' \<mapsto> False]\<rparr>)) \<and>
   (GetCachedTransactionOrNil tg A' = Some ta' \<and> txHash ta' = A' \<and> isTail ta' \<and>
    trunkHash ta' = B' \<and> branchHash ta' = B' \<and>
    GetCachedTransactionOrNil tg B' = Some tb' \<and> txHash tb' = B' \<and> trunkHash tb' = C' \<and>
    branchHash tb' = C' \<and> \<not> isTail tb' \<and>
    GetCachedTransactionOrNil tg C' = Some tc' \<and> txHash tc' = C' \<and> isTail tc' \<and> A' \<noteq> C' \<and>
    \<not> SolidEntryPointsContain tg B' \<and> \<not> SolidEntryPointsContain tg C' \<longrightarrow>
      FindAllTails tg A' True forceRelease = Some ({C'}, None))"
proof (intro conjI impI)
  assume h: "GetCachedTransactionOrNil tg A = Some ta \<and> txHash ta = A \<and> trunkHash ta = B \<and>
    branchHash ta = B \<and> \<not> isTail ta \<and>
    GetCachedTransactionOrNil tg B = Some tb \<and> txHash tb = B \<and> trunkHash tb = C \<and>
    branchHash tb = C \<and> \<not> isTail tb \<and>
    GetCachedTransactionOrNil tg C = Some tc \<and> txHash tc = C \<and> isTail tc \<and>
    \<not> SolidEntryPointsContain tg B \<and> \<not> SolidEntryPointsContain tg C"
  then have "A \<noteq> C" by auto
  with h show "FindAllTails tg A False forceRelease = Some ({C}, None)"
    by (intro chain_run [where ta = ta and tb = tb and tc = tc and B = B]) simp_all
next
  assume h: "GetCachedTransactionOrNil tg A' = Some ta' \<and> txHash ta' = A' \<and> isTail ta'"
  then show run: "FindAllTailsRun tg A' False forceRelease =
        Some (None, \<lparr>user = {A'},
          trace = [Acquire A', Op Engine A' Retain, Condition A' (Inr False),
                   Op Callback A' (Release True), Op Engine A' (Release True)],
          polls = 1, stack = [], visited = [A' \<mapsto> False]\<rparr>)"
    by (intro tail_start_run [where ta = ta']) simp_all
  show "FindAllTails tg A' False forceRelease = Some ({A'}, None)"
    by (simp add: FindAllTails_def run)
next
  assume h: "GetCachedTransactionOrNil tg A' = Some ta' \<and> txHash ta' = A' \<and> isTail ta' \<and>
    trunkHash ta' = B' \<and> branchHash ta' = B' \<and>
    GetCachedTransactionOrNil tg B' = Some tb' \<and> txHash tb' = B' \<and> trunkHash tb' = C' \<and>
    branchHash tb' = C' \<and> \<not> isTail tb' \<and>
    GetCachedTransactionOrNil tg C' = Some tc' \<and> txHash tc' = C' \<and> isTail tc' \<and> A' \<noteq> C' \<and>
    \<not> SolidEntryPointsContain tg B' \<and> \<not> SolidEntryPointsContain tg C'"
  then show "FindAllTails tg A' True forceRelease = Some ({C'}, None)"
    by (intro chain_run [where ta = ta' and tb = tb' and tc = tc' and B = B']) simp_all
qed

theorem find_all_tails_chain_witness:
  "FindAllTails chainABC ''A'' False False = Some ({''C''}, None) \<and>
   FindAllTails tailABC ''A'' False False = Some ({''A''}, None) \<and>
   FindAllTails tailABC ''A'' True False = Some ({''C''}, None)"
proof -
  let ?a = "\<lparr>txHash = ''A'', trunkHash = ''B'', branchHash = ''B'', isTail = False\<rparr>"
  let ?a' = "\<lparr>txHash = ''A'', trunkHash = ''B'', branchHash = ''B'', isTail = True\<rparr>"
  let ?b = "\<lparr>txHash = ''B'', trunkHash = ''C'', branchHash = ''C'', isTail = False\<rparr>"
  let ?c = "\<lparr>txHash = ''C'', trunkHash = ''D'', branchHash = ''D'', isTail = True\<rparr>"
  have 1: "FindAllTails chainABC ''A'' False False = Some ({''C''}, None)"
    using find_all_tails_chain [where tg = chainABC and A = "''A''" and B = "''B''"
        and C = "''C''" and ta = ?a and tb = ?b and tc = ?c and forceRelease = False]
    by (simp add: chainABC_def)
  have 2: "FindAllTails tailABC ''A'' False False = Some ({''A''}, None) \<and>
      FindAllTails tailABC ''A'' True False = Some ({''C''}, None)"
    using find_all_tails_chain [where tg = tailABC and A' = "''A''" and B' = "''B''"
        and C' = "''C''" and ta' = ?a' and tb' = ?b and tc' = ?c and forceRelease = False]
    by (simp add: tailABC_def)
  from 1 2 show ?thesis by simp
qed



section \<open>Approver traversal schedules a hash once\<close>

lemma map_filter_append: "List.map_filter f (xs @ ys) = List.map_filter f xs @ List.map_filter f ys"
  by (simp add: List.map_filter_def)

lemma enqueued_append [simp]: "enqueued (xs @ ys) = enqueued xs @ enqueued ys"
  by (simp add: enqueued_def map_filter_append)

lemma enqueued_simps [simp]:
  "enqueued [] = []"
  "enqueued (Enqueue h # es) = h # enqueued es"
  "enqueued (Acquire h # es) = enqueued es"
  "enqueued (Op a h p # es) = enqueued es"
  "enqueued (Condition h r # es) = enqueued es"
  "enqueued (Consume h c # es) = enqueued es"
  "enqueued (Missing h c # es) = enqueued es"
  "enqueued (SolidEntryPoint h # es) = enqueued es"
  by (simp_all add: enqueued_def)

lemma enqueued_ops [simp]: "enqueued (map (Op a h) ops) = []"
  by (induction ops) simp_all

lemma approversInv_update [simp]:
  "approversInv (s\<lparr>user := u\<rparr>) = approversInv s"
  "approversInv (s\<lparr>polls := k\<rparr>) = approversInv s"
  "approversInv (s\<lparr>queue := q\<rparr>) = approversInv s"
  "enqueued es = [] \<Longrightarrow> approversInv (emit es s) = approversInv s"
  by (simp_all add: approversInv_def emit_def)

lemma enqueueApprovers_inv: "approversInv s \<Longrightarrow> approversInv (enqueueApprovers hs s)"
proof (induction hs arbitrary: s)
  case Nil
  then show ?case by simp
next
  case (Cons a hs)
  show ?case
  proof (cases "a \<in> discovered s")
    case True
    with Cons show ?thesis by simp
  next
    case False
    with Cons.prems have "approversInv (emit [Enqueue a]
        (s\<lparr>discovered := insert a (discovered s), queue := queue s @ [a]\<rparr>))"
      by (auto simp: approversInv_def emit_def)
    with False Cons.IH show ?thesis by simp
  qed
qed

lemma resolvedApprovers_inv:
  "approversInv s \<Longrightarrow> resolvedApprovers tg condition consumer forceRelease h cachedTx s = (e, s1)
    \<Longrightarrow> approversInv s1"
  unfolding resolvedApprovers_def Let_def
  by (auto split: prod.splits sum.splits if_splits option.splits intro!: enqueueApprovers_inv)

lemma processStackApprovers_inv:
  "approversInv s \<Longrightarrow> processStackApprovers tg condition consumer forceRelease abortSignal s = (e, s1)
    \<Longrightarrow> approversInv s1"
  unfolding processStackApprovers_def Let_def
  by (auto split: prod.splits list.splits if_splits option.splits
      dest!: resolvedApprovers_inv [rotated])

lemma enqueueApprovers_discovered:
  "x \<in> discovered s \<Longrightarrow> x \<in> discovered (enqueueApprovers hs s)"
  by (induction hs arbitrary: s) (simp_all add: emit_def)

lemma processStackApprovers_discovered:
  "x \<in> discovered s \<Longrightarrow> processStackApprovers tg condition consumer forceRelease abortSignal s = (e, s1)
    \<Longrightarrow> x \<in> discovered s1"
  unfolding processStackApprovers_def resolvedApprovers_def Let_def
  by (auto split: prod.splits list.splits if_splits option.splits sum.splits
      simp: emit_def intro!: enqueueApprovers_discovered)

text \<open>
  Claim C5. In the trace of every call of the approver traversal that returns (with or without
  an error), the hashes inserted into the work list, the start included, are pairwise
  distinct; they are exactly the hashes of the discovered set, since a hash is added to
  that set when it is inserted, and a hash in the set is not inserted again.
\<close>

theorem approvers_enqueued_once:
  "TraverseApprovers tg startTxHash condition consumer forceRelease abortSignal u = Some (r, s)
    \<Longrightarrow> distinct (enqueued (trace s)) \<and> set (enqueued (trace s)) = discovered s \<and>
        startTxHash \<in> set (enqueued (trace s))"
proof -
  assume run: "TraverseApprovers tg startTxHash condition consumer forceRelease abortSignal u = Some (r, s)"
  let ?s0 = "\<lparr>user = u, trace = [Enqueue startTxHash], polls = 0, queue = [startTxHash],
       discovered = {startTxHash}\<rparr>"
  have "approversInv s \<and> startTxHash \<in> discovered s"
  proof (rule stackLoop_invariant [where I = "\<lambda>s. approversInv s \<and> startTxHash \<in> discovered s"])
    show "stackLoop queue (processStackApprovers tg condition consumer forceRelease abortSignal) ?s0
        = Some (r, s)"
      using run by (simp add: TraverseApprovers_def)
    show "approversInv ?s0 \<and> startTxHash \<in> discovered ?s0" by (simp add: approversInv_def)
  next
    fix s e s1
    assume "approversInv s \<and> startTxHash \<in> discovered s"
      and "processStackApprovers tg condition consumer forceRelease abortSignal s = (e, s1)"
    then show "approversInv s1 \<and> startTxHash \<in> discovered s1"
      by (blast intro: processStackApprovers_inv processStackApprovers_discovered)
  qed
  then show ?thesis by (auto simp: approversInv_def)
qed


theorem approvers_enqueued_once_witness:
  "\<exists>r s. TraverseApprovers diamond ''D'' acceptAll consumeAll False (\<lambda>k. False) () = Some (r, s) \<and>
     enqueued (trace s) = [''D'', ''B'', ''C'', ''A''] \<and>
     distinct (enqueued (trace s)) \<and> set (enqueued (trace s)) = discovered s \<and>
     ''D'' \<in> set (enqueued (trace s))"
proof -
  have "map_option (\<lambda>(r, s). enqueued (trace s))
      (TraverseApprovers diamond ''D'' acceptAll consumeAll False (\<lambda>k. False) ()) =
      Some [''D'', ''B'', ''C'', ''A'']"
    by (simp add: approvers_defs stackLoop.simps example_defs)
  then obtain r s where
    run: "TraverseApprovers diamond ''D'' acceptAll consumeAll False (\<lambda>k. False) () = Some (r, s)"
    and enq: "enqueued (trace s) = [''D'', ''B'', ''C'', ''A'']"
    by auto
  from approvers_enqueued_once [OF run] run enq show ?thesis by auto
qed

section \<open>Handle accounting\<close>

lemma counts_append [simp]:
  "acquisitions (xs @ ys) = acquisitions xs + acquisitions ys"
  "releases (xs @ ys) = releases xs + releases ys"
  by (simp_all add: acquisitions_def releases_def)

lemma counts_Cons [simp]:
  "acquisitions [] = 0"
  "releases [] = 0"
  "acquisitions (e # es) = (if isAcquisition e then Suc (acquisitions es) else acquisitions es)"
  "releases (e # es) = (if isRelease e then Suc (releases es) else releases es)"
  by (simp_all add: acquisitions_def releases_def)

lemma counts_ops:
  "acquisitions (map (Op a h) ops) = length (filter (\<lambda>p. p = Retain) ops) \<and>
   releases (map (Op a h) ops) = length (filter (\<lambda>p. p \<noteq> Retain) ops)"
proof (induction ops)
  case Nil
  show ?case by simp
next
  case (Cons p ops)
  then show ?case by (cases p) simp_all
qed

lemma callback_balance:
  "releasesHandle ops \<Longrightarrow> releases (map (Op a h) ops) = Suc (acquisitions (map (Op a h) ops))"
  by (simp add: releasesHandle_def counts_ops)

lemma scanApprovees_counts:
  "scanApprovees tg onSolidEntryPoint traverseSolidEntryPoints hs s = (b, s1) \<Longrightarrow>
    acquisitions (trace s1) = acquisitions (trace s) \<and> releases (trace s1) = releases (trace s)"
  by (induction hs arbitrary: s) (auto simp: emit_def Let_def split: if_splits)

lemma finishApprovees_counts:
  assumes "\<forall>t u. releasesHandle (fst (snd (consumer t u)))"
    and "finishApprovees tg consumer onSolidEntryPoint traverseSolidEntryPoints cachedTx traverse s
      = (e, s1)"
  shows "acquisitions (trace s1) + releases (trace s) = acquisitions (trace s) + releases (trace s1)"
proof (cases traverse)
  case False
  with assms(2) show ?thesis by (auto simp: finishApprovees_def)
next
  case True
  let ?hs = "approveeHashes cachedTx"
  obtain b s' where sc: "scanApprovees tg onSolidEntryPoint traverseSolidEntryPoints ?hs s = (b, s')"
    by (cases "scanApprovees tg onSolidEntryPoint traverseSolidEntryPoints ?hs s")
  note c = scanApprovees_counts [OF sc]
  show ?thesis
  proof (cases b)
    case True
    with assms(2) \<open>traverse\<close> sc c show ?thesis by (simp add: finishApprovees_def)
  next
    case False
    obtain err ops u where co: "consumer cachedTx (user s') = (err, ops, u)"
      by (cases "consumer cachedTx (user s')") auto
    from assms(1) have "releasesHandle (fst (snd (consumer cachedTx (user s'))))" by blast
    with co have "releasesHandle ops" by simp
    note cb = callback_balance [OF this]
    from assms(2) \<open>traverse\<close> sc c False co cb show ?thesis
      by (auto simp: finishApprovees_def emit_def Let_def)
  qed
qed


lemma resolvedApprovees_counts:
  assumes cond: "\<forall>t u. releasesHandle (fst (snd (condition t u)))"
    and cons: "\<forall>t u. releasesHandle (fst (snd (consumer t u)))"
    and run: "resolvedApprovees tg condition consumer onSolidEntryPoint traverseSolidEntryPoints
      cachedTx s = (e, s1)"
  shows "acquisitions (trace s1) + releases (trace s) = acquisitions (trace s) + releases (trace s1)"
proof (cases "visited s (hd (stack s))")
  case (Some traverse)
  with run finishApprovees_counts [OF cons] show ?thesis
    by (simp add: resolvedApprovees_def)
next
  case None
  obtain r ops u where co: "condition cachedTx (user s) = (r, ops, u)"
    by (cases "condition cachedTx (user s)") auto
  from cond have "releasesHandle (fst (snd (condition cachedTx (user s))))" by blast
  with co have "releasesHandle ops" by simp
  note cb = callback_balance [OF this, of Callback "hd (stack s)"]
  show ?thesis
  proof (cases r)
    case (Inl err)
    with run None co cb show ?thesis
      by (auto simp: resolvedApprovees_def emit_def Let_def)
  next
    case (Inr traverse)
    let ?s = "(emit (Op Engine (hd (stack s)) Retain # Condition (hd (stack s)) r #
                 map (Op Callback (hd (stack s))) ops) (s\<lparr>user := u\<rparr>))
               \<lparr>visited := (visited s)(hd (stack s) \<mapsto> traverse)\<rparr>"
    from run None co Inr have "finishApprovees tg consumer onSolidEntryPoint
        traverseSolidEntryPoints cachedTx traverse ?s = (e, s1)"
      by (simp add: resolvedApprovees_def emit_def Let_def)
    from finishApprovees_counts [OF cons this] cb show ?thesis
      by (simp add: emit_def)
  qed
qed

lemma processStackApprovees_counts:
  assumes cond: "\<forall>t u. releasesHandle (fst (snd (condition t u)))"
    and cons: "\<forall>t u. releasesHandle (fst (snd (consumer t u)))"
    and run: "processStackApprovees tg condition consumer onMissingApprovee onSolidEntryPoint
      forceRelease traverseSolidEntryPoints abortSignal s = (e, s1)"
    and bal: "acquisitions (trace s) = releases (trace s)"
  shows "acquisitions (trace s1) = releases (trace s1)"
  using run bal
  unfolding processStackApprovees_def Let_def
  by (auto split: if_splits list.splits option.splits prod.splits simp: emit_def
      dest!: resolvedApprovees_counts [OF cond cons])

lemma enqueueApprovers_counts:
  "acquisitions (trace (enqueueApprovers hs s)) = acquisitions (trace s) \<and>
   releases (trace (enqueueApprovers hs s)) = releases (trace s)"
  by (induction hs arbitrary: s) (simp_all add: emit_def)

lemma resolvedApprovers_counts:
  assumes cond: "\<forall>t u. releasesHandle (fst (snd (condition t u)))"
    and cons: "\<forall>t u. releasesHandle (fst (snd (consumer t u)))"
    and run: "resolvedApprovers tg condition consumer forceRelease h cachedTx s = (e, s1)"
  shows "acquisitions (trace s1) + releases (trace s) = acquisitions (trace s) + releases (trace s1)"
proof -
  obtain r ops u where co: "condition cachedTx (user s) = (r, ops, u)"
    by (cases "condition cachedTx (user s)") auto
  obtain cerr cops cu where cs: "consumer cachedTx u = (cerr, cops, cu)"
    by (cases "consumer cachedTx u") auto
  from cond have "releasesHandle (fst (snd (condition cachedTx (user s))))" by blast
  with co have "releasesHandle ops" by simp
  note cb = callback_balance [OF this, of Callback h]
  from cons have "releasesHandle (fst (snd (consumer cachedTx u)))" by blast
  with cs have "releasesHandle cops" by simp
  note cc = callback_balance [OF this, of Callback h]
  from run co cs cb cc show ?thesis
    by (auto simp: resolvedApprovers_def emit_def Let_def enqueueApprovers_counts
        split: sum.splits if_splits option.splits)
qed

lemma processStackApprovers_counts:
  assumes cond: "\<forall>t u. releasesHandle (fst (snd (condition t u)))"
    and cons: "\<forall>t u. releasesHandle (fst (snd (consumer t u)))"
    and run: "processStackApprovers tg condition consumer forceRelease abortSignal s = (e, s1)"
    and bal: "acquisitions (trace s) = releases (trace s)"
  shows "acquisitions (trace s1) = releases (trace s1)"
  using run bal
  unfolding processStackApprovers_def Let_def
  by (auto split: if_splits list.splits option.splits prod.splits simp: emit_def
      dest!: resolvedApprovers_counts [OF cond cons])

text \<open>
  Claim C8. When the predicate and the consumer each release the retained handle they are
  given, every call of either traversal that returns, with an error or without, has
  performed as many handle acquisitions (store resolutions that returned a handle, and
  retains) as releases.
\<close>

theorem handles_balanced:
  assumes cond: "\<forall>t u. releasesHandle (fst (snd (condition t u)))"
    and cons: "\<forall>t u. releasesHandle (fst (snd (consumer t u)))"
  shows "(TraverseApprovees tg startTxHash condition consumer onMissingApprovee onSolidEntryPoint
            forceRelease traverseSolidEntryPoints abortSignal u = Some (r, s) \<longrightarrow>
          acquisitions (trace s) = releases (trace s)) \<and>
         (TraverseApprovers tg startTxHash condition consumer forceRelease abortSignal u =
            Some (r', s') \<longrightarrow>
          acquisitions (trace s') = releases (trace s'))"
proof (intro conjI impI)
  assume "TraverseApprovees tg startTxHash condition consumer onMissingApprovee onSolidEntryPoint
            forceRelease traverseSolidEntryPoints abortSignal u = Some (r, s)"
  then have "stackLoop stack (processStackApprovees tg condition consumer onMissingApprovee
      onSolidEntryPoint forceRelease traverseSolidEntryPoints abortSignal)
      \<lparr>user = u, trace = [], polls = 0, stack = [startTxHash], visited = Map.empty\<rparr> = Some (r, s)"
    by (simp add: TraverseApprovees_def)
  then show "acquisitions (trace s) = releases (trace s)"
    by (rule stackLoop_invariant [where I = "\<lambda>s. acquisitions (trace s) = releases (trace s)"])
      (simp, rule processStackApprovees_counts [OF cond cons])
next
  assume "TraverseApprovers tg startTxHash condition consumer forceRelease abortSignal u =
            Some (r', s')"
  then have "stackLoop queue (processStackApprovers tg condition consumer forceRelease abortSignal)
      \<lparr>user = u, trace = [Enqueue startTxHash], polls = 0, queue = [startTxHash],
       discovered = {startTxHash}\<rparr> = Some (r', s')"
    by (simp add: TraverseApprovers_def)
  then show "acquisitions (trace s') = releases (trace s')"
    by (rule stackLoop_invariant [where I = "\<lambda>s. acquisitions (trace s) = releases (trace s)"])
      (simp, rule processStackApprovers_counts [OF cond cons])
qed


theorem handles_balanced_witness:
  "(\<forall>t u. releasesHandle (fst (snd (tailsCondition ''C'' True t u)))) \<and>
   (\<forall>t u. releasesHandle (fst (snd (tailsConsumer t u)))) \<and>
   (\<exists>s. TraverseApprovees chainABC ''C'' (tailsCondition ''C'' True) tailsConsumer tailsOnMissing
          tailsOnSolidEntryPoint False False (\<lambda>k. False) {} =
          Some (Some (ErrFindAllTailsFailed ''D''), s) \<and>
        acquisitions (trace s) = 2 \<and> acquisitions (trace s) = releases (trace s)) \<and>
   (\<exists>s. TraverseApprovers chainABC ''B'' (tailsCondition ''C'' True) tailsConsumer False
          (\<lambda>k. False) {} = Some (None, s) \<and>
        acquisitions (trace s) = 6 \<and> acquisitions (trace s) = releases (trace s))"
proof -
  have cond: "\<forall>t u. releasesHandle (fst (snd (tailsCondition ''C'' True t u)))"
    by (simp add: tailsCondition_def releasesHandle_def)
  have cons: "\<forall>t u. releasesHandle (fst (snd (tailsConsumer t u)))"
    by (simp add: tailsConsumer_def releasesHandle_def)
  have "map_option (\<lambda>(r, s). (r, acquisitions (trace s)))
      (TraverseApprovees chainABC ''C'' (tailsCondition ''C'' True) tailsConsumer tailsOnMissing
         tailsOnSolidEntryPoint False False (\<lambda>k. False) {}) =
      Some (Some (ErrFindAllTailsFailed ''D''), 2)"
    by (simp add: approvees_defs stackLoop.simps tails_defs example_defs)
  then obtain s where
    a: "TraverseApprovees chainABC ''C'' (tailsCondition ''C'' True) tailsConsumer tailsOnMissing
         tailsOnSolidEntryPoint False False (\<lambda>k. False) {} =
         Some (Some (ErrFindAllTailsFailed ''D''), s)" "acquisitions (trace s) = 2"
    by auto
  have "map_option (\<lambda>(r, s). (r, acquisitions (trace s)))
      (TraverseApprovers chainABC ''B'' (tailsCondition ''C'' True) tailsConsumer False
         (\<lambda>k. False) {}) = Some (None, 6)"
    by (simp add: approvers_defs stackLoop.simps tails_defs example_defs)
  then obtain s' where
    b: "TraverseApprovers chainABC ''B'' (tailsCondition ''C'' True) tailsConsumer False
         (\<lambda>k. False) {} = Some (None, s')" "acquisitions (trace s') = 6"
    by auto
  from handles_balanced [OF cond cons, where tg = chainABC and startTxHash = "''C''"
      and onMissingApprovee = tailsOnMissing and onSolidEntryPoint = tailsOnSolidEntryPoint
      and forceRelease = False and traverseSolidEntryPoints = False and abortSignal = "\<lambda>k. False"
      and u = "{}" and s = s and r = "Some (ErrFindAllTailsFailed ''D'')"] a
  have 1: "acquisitions (trace s) = releases (trace s)" by simp
  from handles_balanced [OF cond cons, where tg = chainABC and startTxHash = "''B''"
      and forceRelease = False and abortSignal = "\<lambda>k. False"
      and u = "{}" and s' = s' and r' = None] b
  have 2: "acquisitions (trace s') = releases (trace s')" by simp
  from cond cons a b 1 2 show ?thesis by blast
qed



section \<open>The step of the approvee traversal by cases\<close>

text \<open>The return paths of the step, from the inside out: the part after the predicate
  result is known, the part after the transaction was loaded, and the whole step.\<close>

lemma finishApprovees_cases:
  assumes "finishApprovees tg consumer onSolidEntryPoint traverseSolidEntryPoints cachedTx
      traverse s = (e, s1)"
  obtains (skip) "\<not> traverse" "e = None" "s1 = s\<lparr>stack := tl (stack s)\<rparr>"
  | (push) "traverse" "e = None"
      "scanApprovees tg onSolidEntryPoint traverseSolidEntryPoints (approveeHashes cachedTx) s
        = (True, s1)"
  | (consume) s' ops u where "traverse"
      "scanApprovees tg onSolidEntryPoint traverseSolidEntryPoints (approveeHashes cachedTx) s
        = (False, s')"
      "consumer cachedTx (user s') = (e, ops, u)"
      "s1 = emit (Op Engine (hd (stack s')) Retain # Consume (hd (stack s')) e #
                  map (Op Callback (hd (stack s'))) ops)
              (s'\<lparr>stack := tl (stack s'), user := u\<rparr>)"
proof (cases traverse)
  case False
  with assms skip show ?thesis by (simp add: finishApprovees_def)
next
  case True
  obtain b s' where sc: "scanApprovees tg onSolidEntryPoint traverseSolidEntryPoints
      (approveeHashes cachedTx) s = (b, s')"
    by (cases "scanApprovees tg onSolidEntryPoint traverseSolidEntryPoints
      (approveeHashes cachedTx) s")
  show ?thesis
  proof (cases b)
    case True
    with assms \<open>traverse\<close> sc push show ?thesis by (simp add: finishApprovees_def)
  next
    case False
    obtain err ops u where co: "consumer cachedTx (user s') = (err, ops, u)"
      by (cases "consumer cachedTx (user s')") auto
    with assms \<open>traverse\<close> sc False show ?thesis
      by (intro consume [of s' ops u]) (auto simp: finishApprovees_def emit_def Let_def)
  qed
qed

lemma resolvedApprovees_cases:
  assumes "resolvedApprovees tg condition consumer onSolidEntryPoint traverseSolidEntryPoints
      cachedTx s = (e, s1)"
  obtains (memo) traverse where "visited s (hd (stack s)) = Some traverse"
      "finishApprovees tg consumer onSolidEntryPoint traverseSolidEntryPoints cachedTx
        traverse s = (e, s1)"
  | (failed) err ops u where "visited s (hd (stack s)) = None"
      "condition cachedTx (user s) = (Inl err, ops, u)" "e = Some err"
      "s1 = emit (Op Engine (hd (stack s)) Retain # Condition (hd (stack s)) (Inl err) #
                  map (Op Callback (hd (stack s))) ops) (s\<lparr>user := u\<rparr>)"
  | (evaluated) traverse ops u where "visited s (hd (stack s)) = None"
      "condition cachedTx (user s) = (Inr traverse, ops, u)"
      "finishApprovees tg consumer onSolidEntryPoint traverseSolidEntryPoints cachedTx traverse
        ((emit (Op Engine (hd (stack s)) Retain # Condition (hd (stack s)) (Inr traverse) #
                map (Op Callback (hd (stack s))) ops) (s\<lparr>user := u\<rparr>))
           \<lparr>visited := (visited s)(hd (stack s) \<mapsto> traverse)\<rparr>) = (e, s1)"
proof (cases "visited s (hd (stack s))")
  case (Some traverse)
  with assms memo show ?thesis by (simp add: resolvedApprovees_def)
next
  case None
  obtain r ops u where co: "condition cachedTx (user s) = (r, ops, u)"
    by (cases "condition cachedTx (user s)") auto
  show ?thesis
  proof (cases r)
    case (Inl err)
    with assms None co show ?thesis
      by (intro failed [of err ops u]) (auto simp: resolvedApprovees_def emit_def Let_def)
  next
    case (Inr traverse)
    with assms None co show ?thesis
      by (intro evaluated [of traverse ops u]) (auto simp: resolvedApprovees_def emit_def Let_def)
  qed
qed

lemma processStackApprovees_cases:
  assumes "processStackApprovees tg condition consumer onMissingApprovee onSolidEntryPoint
      forceRelease traverseSolidEntryPoints abortSignal s = (e, s1)"
    and "stack s \<noteq> []"
  obtains (aborted) "e = Some ErrOperationAborted" "s1 = s\<lparr>polls := Suc (polls s)\<rparr>"
  | (missing) h rest u where "stack s = h # rest" "GetCachedTransactionOrNil tg h = None"
      "onMissingApprovee h (user s) = (e, u)"
      "s1 = emit [Missing h e]
              (s\<lparr>polls := Suc (polls s), visited := (visited s)(h \<mapsto> False), stack := rest,
                 user := u\<rparr>)"
  | (resolved) h rest cachedTx s' where "stack s = h # rest"
      "GetCachedTransactionOrNil tg h = Some cachedTx"
      "resolvedApprovees tg condition consumer onSolidEntryPoint traverseSolidEntryPoints
         cachedTx (emit [Acquire h] (s\<lparr>polls := Suc (polls s)\<rparr>)) = (e, s')"
      "s1 = emit [Op Engine h (Release forceRelease)] s'"
proof (cases "abortSignal (polls s)")
  case True
  with assms aborted show ?thesis by (simp add: processStackApprovees_def)
next
  case False
  from assms(2) obtain h rest where st: "stack s = h # rest" by (cases "stack s") auto
  show ?thesis
  proof (cases "GetCachedTransactionOrNil tg h")
    case None
    obtain err u where "onMissingApprovee h (user s) = (err, u)"
      by (cases "onMissingApprovee h (user s)")
    with assms False st None show ?thesis
      by (intro missing [of h rest u]) (auto simp: processStackApprovees_def emit_def Let_def)
  next
    case (Some cachedTx)
    obtain err s' where "resolvedApprovees tg condition consumer onSolidEntryPoint
        traverseSolidEntryPoints cachedTx (emit [Acquire h] (s\<lparr>polls := Suc (polls s)\<rparr>))
        = (err, s')"
      by (cases "resolvedApprovees tg condition consumer onSolidEntryPoint
        traverseSolidEntryPoints cachedTx (emit [Acquire h] (s\<lparr>polls := Suc (polls s)\<rparr>))")
    with assms False st Some show ?thesis
      by (intro resolved [of h rest cachedTx s']) (auto simp: processStackApprovees_def Let_def)
  qed
qed

section \<open>The predicate is memoized\<close>

lemma conditioned_append [simp]: "conditioned (xs @ ys) = conditioned xs @ conditioned ys"
  by (simp add: conditioned_def map_filter_append)

lemma conditioned_simps [simp]:
  "conditioned [] = []"
  "conditioned (Condition h r # es) = h # conditioned es"
  "conditioned (Enqueue h # es) = conditioned es"
  "conditioned (Acquire h # es) = conditioned es"
  "conditioned (Op a h p # es) = conditioned es"
  "conditioned (Consume h c # es) = conditioned es"
  "conditioned (Missing h c # es) = conditioned es"
  "conditioned (SolidEntryPoint h # es) = conditioned es"
  by (simp_all add: conditioned_def)

lemma conditioned_ops [simp]: "conditioned (map (Op a h) ops) = []"
  by (induction ops) simp_all

lemma set_conditioned: "set (conditioned tr) = {h. \<exists>r. Condition h r \<in> set tr}"
proof (induction tr)
  case Nil
  show ?case by simp
next
  case (Cons e tr)
  then show ?case by (cases e) auto
qed

lemma no_Condition: "conditioned es = [] \<Longrightarrow> Condition h r \<notin> set es"
  using set_conditioned [of es] by auto

lemma no_Condition_ops [simp]: "Condition h r \<notin> set (map (Op a h') ops)"
  by auto

lemma condInv_same:
  assumes "condInv tg s" and "trace s' = trace s @ es" and "conditioned es = []"
    and "visited s' = visited s"
  shows "condInv tg s'"
  using assms by (auto simp: condInv_def dest: no_Condition)

lemma condInv_unconditioned:
  assumes "condInv tg s" and "visited s a = None \<or> GetCachedTransactionOrNil tg a = None"
  shows "Condition a r \<notin> set (trace s)"
  using assms by (fastforce simp: condInv_def)

lemma condInv_mark:
  assumes "condInv tg s" and "trace s' = trace s @ es" and "conditioned es = []"
    and "visited s' = (visited s)(a \<mapsto> b)"
    and "visited s a = None \<or> GetCachedTransactionOrNil tg a = None"
  shows "condInv tg s'"
proof -
  from condInv_unconditioned [OF assms(1,5)] have "Condition a r \<notin> set (trace s)" for r .
  with assms(1-4) show ?thesis by (auto simp: condInv_def dest: no_Condition)
qed

lemma condInv_post: "condInv tg s \<Longrightarrow> condPost s"
  by (auto simp: condInv_def condPost_def)

lemma scanApprovees_condInv:
  "scanApprovees tg onSolidEntryPoint traverseSolidEntryPoints hs s = (b, s1) \<Longrightarrow>
    condInv tg s \<Longrightarrow> condInv tg s1"
proof (induction hs arbitrary: s)
  case Nil
  then show ?case by simp
next
  case (Cons a hs)
  let ?s1 = "emit [SolidEntryPoint a] (s\<lparr>user := onSolidEntryPoint a (user s)\<rparr>)"
  show ?case
  proof (cases "visited s a = None")
    case False
    with Cons show ?thesis by simp
  next
    case unvisited: True
    show ?thesis
    proof (cases "SolidEntryPointsContain tg a")
      case False
      with Cons.prems unvisited have s1: "s1 = s\<lparr>stack := a # stack s\<rparr>" by simp
      show ?thesis by (rule condInv_same [OF Cons.prems(2), where es = "[]"]) (simp_all add: s1)
    next
      case sep: True
      show ?thesis
      proof (cases traverseSolidEntryPoints)
        case True
        with Cons.prems unvisited sep have s1: "s1 = ?s1\<lparr>stack := a # stack ?s1\<rparr>"
          by (simp add: Let_def)
        show ?thesis
          by (rule condInv_same [OF Cons.prems(2), where es = "[SolidEntryPoint a]"])
            (simp_all add: s1 emit_def)
      next
        case False
        have "condInv tg (?s1\<lparr>visited := (visited ?s1)(a \<mapsto> False)\<rparr>)"
          by (rule condInv_mark [OF Cons.prems(2), where es = "[SolidEntryPoint a]" and a = a
                and b = False]) (simp_all add: emit_def unvisited)
        with Cons.IH Cons.prems(1) unvisited sep False show ?thesis by (simp add: Let_def)
      qed
    qed
  qed
qed

lemma finishApprovees_condInv:
  assumes "finishApprovees tg consumer onSolidEntryPoint traverseSolidEntryPoints cachedTx
      traverse s = (e, s1)" and "condInv tg s"
  shows "condInv tg s1"
  using assms(1)
proof (cases rule: finishApprovees_cases)
  case skip
  show ?thesis by (rule condInv_same [OF assms(2), where es = "[]"]) (simp_all add: skip)
next
  case push
  from scanApprovees_condInv [OF push(3) assms(2)] show ?thesis .
next
  case (consume s' ops u)
  show ?thesis
    by (rule condInv_same [OF scanApprovees_condInv [OF consume(2) assms(2)],
          where es = "Op Engine (hd (stack s')) Retain #
            Consume (hd (stack s')) e # map (Op Callback (hd (stack s'))) ops"])
      (simp_all add: consume(4) emit_def)
qed

lemma condInv_call:
  assumes inv: "condInv tg s" and unv: "visited s h = None"
    and tr: "trace s' = trace s @ Op Engine h Retain # Condition h r # map (Op Callback h) ops"
  shows "r = Inl err \<Longrightarrow> visited s' = visited s \<Longrightarrow> condPost s'"
    and "GetCachedTransactionOrNil tg h \<noteq> None \<Longrightarrow> r = Inr c \<Longrightarrow>
      visited s' = (visited s)(h \<mapsto> c) \<Longrightarrow> condInv tg s'"
proof -
  from condInv_unconditioned [OF inv] unv have no: "Condition h q \<notin> set (trace s)" for q
    by blast
  then have nh: "h \<notin> set (conditioned (trace s))" by (simp add: set_conditioned)
  from inv have d: "distinct (conditioned (trace s))" by (simp add: condInv_def)
  from inv have memo: "Condition k (Inr b) \<in> set (trace s) \<Longrightarrow> visited s k = Some b" for k b
    by (fastforce simp: condInv_def)
  have neq: "Condition k q \<in> set (trace s) \<Longrightarrow> k \<noteq> h" for k q using no by blast
  show "condPost s'" if "r = Inl err" "visited s' = visited s"
    using d nh memo that by (auto simp: tr condPost_def)
  assume tx: "GetCachedTransactionOrNil tg h \<noteq> None" and r: "r = Inr c"
    and v: "visited s' = (visited s)(h \<mapsto> c)"
  from inv have all: "Condition k q \<in> set (trace s) \<Longrightarrow>
      GetCachedTransactionOrNil tg k \<noteq> None \<and> (\<exists>b. q = Inr b \<and> visited s k = Some b)" for k q
    unfolding condInv_def by blast
  show "condInv tg s'"
    unfolding condInv_def
  proof (intro conjI allI impI)
    show "distinct (conditioned (trace s'))" using d nh by (simp add: tr)
  next
    fix k q assume "Condition k q \<in> set (trace s')"
    then consider "Condition k q \<in> set (trace s)" | "k = h" "q = r" by (auto simp: tr)
    then show "GetCachedTransactionOrNil tg k \<noteq> None"
      using all tx by cases auto
  next
    fix k q assume "Condition k q \<in> set (trace s')"
    then consider "Condition k q \<in> set (trace s)" | "k = h" "q = r" by (auto simp: tr)
    then show "\<exists>b. q = Inr b \<and> visited s' k = Some b"
    proof cases
      case 1
      with all [OF 1] neq [OF 1] show ?thesis by (auto simp: v)
    next
      case 2
      then show ?thesis by (simp add: r v)
    qed
  qed
qed

lemma resolvedApprovees_condInv:
  assumes run: "resolvedApprovees tg condition consumer onSolidEntryPoint
      traverseSolidEntryPoints cachedTx s = (e, s1)"
    and inv: "condInv tg s"
    and tx: "GetCachedTransactionOrNil tg (hd (stack s)) = Some cachedTx"
  shows "condPost s1 \<and> (e = None \<longrightarrow> condInv tg s1)"
  using run
proof (cases rule: resolvedApprovees_cases)
  case (memo traverse)
  from finishApprovees_condInv [OF memo(2) inv] show ?thesis by (simp add: condInv_post)
next
  case (failed err ops u)
  let ?h = "hd (stack s)"
  have tr: "trace s1 = trace s @ Op Engine ?h Retain # Condition ?h (Inl err) #
      map (Op Callback ?h) ops"
    and v: "visited s1 = visited s"
    using failed(4) by (simp_all add: emit_def)
  from condInv_call(1) [OF inv failed(1) tr _ v]
  have "condPost s1" by simp
  with failed(3) show ?thesis by simp
next
  case (evaluated traverse ops u)
  let ?h = "hd (stack s)"
  let ?s = "(emit (Op Engine ?h Retain # Condition ?h (Inr traverse) #
                map (Op Callback ?h) ops) (s\<lparr>user := u\<rparr>))
           \<lparr>visited := (visited s)(?h \<mapsto> traverse)\<rparr>"
  have "condInv tg ?s"
    by (rule condInv_call(2) [OF inv evaluated(1), where c = traverse])
      (simp_all add: emit_def tx)
  from finishApprovees_condInv [OF evaluated(3) this] show ?thesis by (simp add: condInv_post)
qed

lemma processStackApprovees_condInv:
  assumes run: "processStackApprovees tg condition consumer onMissingApprovee onSolidEntryPoint
      forceRelease traverseSolidEntryPoints abortSignal s = (e, s1)"
    and ne: "stack s \<noteq> []"
    and inv: "condInv tg s"
  shows "condPost s1 \<and> (e = None \<longrightarrow> condInv tg s1)"
  using run ne
proof (cases rule: processStackApprovees_cases)
  case aborted
  have "condInv tg s1" by (rule condInv_same [OF inv, where es = "[]"]) (simp_all add: aborted)
  then show ?thesis by (simp add: condInv_post)
next
  case (missing h rest u)
  have "condInv tg s1"
    by (rule condInv_mark [OF inv, where es = "[Missing h e]" and a = h and b = False])
      (simp_all add: missing emit_def)
  then show ?thesis by (simp add: condInv_post)
next
  case (resolved h rest cachedTx s')
  have "condInv tg (emit [Acquire h] (s\<lparr>polls := Suc (polls s)\<rparr>))"
    by (rule condInv_same [OF inv, where es = "[Acquire h]"]) (simp_all add: emit_def)
  then have "condPost s' \<and> (e = None \<longrightarrow> condInv tg s')"
    by (rule resolvedApprovees_condInv [OF resolved(3)]) (simp add: emit_def resolved(1,2))
  moreover have "condPost s1" if "condPost s'"
    using that resolved(4) by (simp add: condPost_def emit_def)
  moreover have "condInv tg s1" if "condInv tg s'"
    by (rule condInv_same [OF that, where es = "[Op Engine h (Release forceRelease)]"])
      (simp_all add: resolved(4) emit_def)
  ultimately show ?thesis by blast
qed

text \<open>
  Claim C2. In the trace of every call of the approvee traversal that returns, the hashes on
  which the predicate was called are pairwise distinct: it is called at most once per
  hash. Each boolean it returned is the entry of that hash in the visited map at the end of the
  call: a hash with an entry is decided by the entry, and no later write changes it.
\<close>

theorem predicate_called_once:
  assumes "TraverseApprovees tg startTxHash condition consumer onMissingApprovee
      onSolidEntryPoint forceRelease traverseSolidEntryPoints abortSignal u = Some (r, s)"
  shows "distinct (conditioned (trace s)) \<and>
    (\<forall>h b. Condition h (Inr b) \<in> set (trace s) \<longrightarrow> visited s h = Some b)"
proof -
  let ?step = "processStackApprovees tg condition consumer onMissingApprovee onSolidEntryPoint
      forceRelease traverseSolidEntryPoints abortSignal"
  let ?s0 = "\<lparr>user = u, trace = [], polls = 0, stack = [startTxHash], visited = Map.empty\<rparr>"
  from assms have run: "stackLoop stack ?step ?s0 = Some (r, s)"
    by (simp add: TraverseApprovees_def)
  have "condPost s"
  proof (rule stackLoop_rule [OF run, where I = "condInv tg" and Q = "\<lambda>_. condPost"])
    show "condInv tg ?s0" by (simp add: condInv_def)
  next
    fix s s1 assume "condInv tg s" "stack s \<noteq> []" "?step s = (None, s1)"
    from processStackApprovees_condInv [OF this(3,2,1)] show "condInv tg s1" by simp
  next
    fix s assume "condInv tg s"
    then show "condPost s" by (rule condInv_post)
  next
    fix s e s1 assume "condInv tg s" "stack s \<noteq> []" "?step s = (Some e, s1)"
    from processStackApprovees_condInv [OF this(3,2,1)] show "condPost s1" by simp
  qed
  then show ?thesis by (simp add: condPost_def)
qed


theorem predicate_called_once_witness:
  "\<exists>r s. TraverseApprovees diamond ''A'' acceptAll consumeAll ignoreMissing ignoreSolidEntryPoint
       False False (\<lambda>k. False) () = Some (r, s) \<and>
     polls s = 5 \<and> conditioned (trace s) = [''A'', ''B'', ''C''] \<and>
     distinct (conditioned (trace s)) \<and>
     (\<forall>h b. Condition h (Inr b) \<in> set (trace s) \<longrightarrow> visited s h = Some b)"
proof -
  have "map_option (\<lambda>(r, s). (polls s, conditioned (trace s)))
      (TraverseApprovees diamond ''A'' acceptAll consumeAll ignoreMissing ignoreSolidEntryPoint
         False False (\<lambda>k. False) ()) = Some (5, [''A'', ''B'', ''C''])"
    by (simp add: approvees_defs stackLoop.simps example_defs)
  then obtain r s where
    run: "TraverseApprovees diamond ''A'' acceptAll consumeAll ignoreMissing ignoreSolidEntryPoint
         False False (\<lambda>k. False) () = Some (r, s)"
    and obs: "polls s = 5" "conditioned (trace s) = [''A'', ''B'', ''C'']"
    by auto
  from predicate_called_once [OF run] run obs show ?thesis by blast
qed



section \<open>The tail search returns what it recorded\<close>

lemma tailsInv_same:
  assumes "tailsInv s" and "trace s' = trace s @ es" and "conditioned es = []"
    and "user s' = user s"
  shows "tailsInv s'"
  using assms by (auto simp: tailsInv_def dest: no_Condition)

lemma scanApprovees_tailsInv:
  "scanApprovees tg tailsOnSolidEntryPoint traverseSolidEntryPoints hs s = (b, s1) \<Longrightarrow>
    tailsInv s \<Longrightarrow> tailsInv s1"
proof (induction hs arbitrary: s)
  case Nil
  then show ?case by simp
next
  case (Cons a hs)
  let ?s1 = "emit [SolidEntryPoint a] (s\<lparr>user := tailsOnSolidEntryPoint a (user s)\<rparr>)"
  have step: "tailsInv (?s1\<lparr>visited := (visited ?s1)(a \<mapsto> False)\<rparr>)"
    by (rule tailsInv_same [OF Cons.prems(2), where es = "[SolidEntryPoint a]"])
      (simp_all add: emit_def tailsOnSolidEntryPoint_def)
  have push: "tailsInv (?s1\<lparr>stack := a # stack ?s1\<rparr>)"
    by (rule tailsInv_same [OF Cons.prems(2), where es = "[SolidEntryPoint a]"])
      (simp_all add: emit_def tailsOnSolidEntryPoint_def)
  have push': "tailsInv (s\<lparr>stack := a # stack s\<rparr>)"
    by (rule tailsInv_same [OF Cons.prems(2), where es = "[]"]) simp_all
  from Cons.prems(1) Cons.IH [OF _ step] Cons.IH [OF _ Cons.prems(2)] push push'
  show ?case by (auto simp: Let_def split: if_splits)
qed

lemma finishApprovees_tailsInv:
  assumes "finishApprovees tg tailsConsumer tailsOnSolidEntryPoint traverseSolidEntryPoints
      cachedTx traverse s = (e, s1)" and "tailsInv s"
  shows "tailsInv s1"
  using assms(1)
proof (cases rule: finishApprovees_cases)
  case skip
  show ?thesis by (rule tailsInv_same [OF assms(2), where es = "[]"]) (simp_all add: skip)
next
  case push
  from scanApprovees_tailsInv [OF push(3) assms(2)] show ?thesis .
next
  case (consume s' ops u)
  from consume(3) have "u = user s'" by (simp add: tailsConsumer_def)
  then show ?thesis
    by (intro tailsInv_same [OF scanApprovees_tailsInv [OF consume(2) assms(2)],
          where es = "Op Engine (hd (stack s')) Retain #
            Consume (hd (stack s')) e # map (Op Callback (hd (stack s'))) ops"])
      (simp_all add: consume(4) emit_def)
qed

lemma resolvedApprovees_tailsInv:
  assumes run: "resolvedApprovees tg (tailsCondition startTxHash skipStartTx) tailsConsumer
      tailsOnSolidEntryPoint traverseSolidEntryPoints cachedTx s = (e, s1)"
    and inv: "tailsInv s"
    and tx: "txHash cachedTx = hd (stack s)"
  shows "tailsInv s1"
  using run
proof (cases rule: resolvedApprovees_cases)
  case (memo traverse)
  from finishApprovees_tailsInv [OF memo(2) inv] show ?thesis .
next
  case (failed err ops u)
  then show ?thesis by (simp add: tailsCondition_def split: if_splits)
next
  case (evaluated traverse ops u)
  let ?h = "hd (stack s)"
  let ?s = "(emit (Op Engine ?h Retain # Condition ?h (Inr traverse) #
                map (Op Callback ?h) ops) (s\<lparr>user := u\<rparr>))
           \<lparr>visited := (visited s)(?h \<mapsto> traverse)\<rparr>"
  from evaluated(2) tx have "u = (if traverse then user s else insert ?h (user s))"
    by (auto simp: tailsCondition_def split: if_splits)
  with inv have "tailsInv ?s"
    by (auto simp: tailsInv_def emit_def)
  from finishApprovees_tailsInv [OF evaluated(3) this] show ?thesis .
qed

lemma processStackApprovees_tailsInv:
  assumes wf: "\<forall>h t. GetCachedTransactionOrNil tg h = Some t \<longrightarrow> txHash t = h"
    and run: "processStackApprovees tg (tailsCondition startTxHash skipStartTx) tailsConsumer
      tailsOnMissing tailsOnSolidEntryPoint forceRelease traverseSolidEntryPoints abortSignal s
      = (e, s1)"
    and ne: "stack s \<noteq> []"
    and inv: "tailsInv s"
  shows "tailsInv s1"
  using run ne
proof (cases rule: processStackApprovees_cases)
  case aborted
  show ?thesis by (rule tailsInv_same [OF inv, where es = "[]"]) (simp_all add: aborted)
next
  case (missing h rest u)
  from missing(3) have "u = user s" by (simp add: tailsOnMissing_def)
  then show ?thesis
    by (intro tailsInv_same [OF inv, where es = "[Missing h e]"]) (simp_all add: missing emit_def)
next
  case (resolved h rest cachedTx s')
  from wf resolved(2) have h: "txHash cachedTx = h" by blast
  have "tailsInv (emit [Acquire h] (s\<lparr>polls := Suc (polls s)\<rparr>))"
    by (rule tailsInv_same [OF inv, where es = "[Acquire h]"]) (simp_all add: emit_def)
  then have "tailsInv s'"
    by (rule resolvedApprovees_tailsInv [OF resolved(3)]) (simp add: emit_def resolved(1) h)
  then show ?thesis
    by (rule tailsInv_same [where es = "[Op Engine h (Release forceRelease)]"])
      (simp_all add: resolved(4) emit_def)
qed

text \<open>
  Claim C10. Whatever error \<^verbatim>\<open>FindAllTails\<close> returns, nil or not, it returns with it the
  map \<^verbatim>\<open>tails\<close> as the traversal left it: exactly the hashes recorded by the predicate
  up to then (those on which it returned false). The store is taken to return, for a hash,
  a transaction of that hash. The witness is a search that fails on a missing branch after
  the trunk was recorded: the result holds the trunk next to the error.
\<close>

theorem find_all_tails_partial_result:
  assumes wf: "\<forall>h t. GetCachedTransactionOrNil tg h = Some t \<longrightarrow> txHash t = h"
    and ret: "FindAllTails tg startTxHash skipStartTx forceRelease = Some (tails, err)"
  shows "\<exists>s. FindAllTailsRun tg startTxHash skipStartTx forceRelease = Some (err, s) \<and>
    tails = user s \<and> tails = {h. Condition h (Inr False) \<in> set (trace s)}"
proof -
  from ret obtain s where
    run: "FindAllTailsRun tg startTxHash skipStartTx forceRelease = Some (err, s)"
    and tails: "tails = user s"
    by (auto simp: FindAllTails_def)
  let ?step = "processStackApprovees tg (tailsCondition startTxHash skipStartTx) tailsConsumer
      tailsOnMissing tailsOnSolidEntryPoint True False (\<lambda>_. False)"
  from run have "stackLoop stack ?step
      \<lparr>user = {}, trace = [], polls = 0, stack = [startTxHash], visited = Map.empty\<rparr>
      = Some (err, s)"
    by (simp add: FindAllTailsRun_def TraverseApprovees_def)
  then have "tailsInv s"
    by (rule stackLoop_invariant [where I = tailsInv])
      (simp add: tailsInv_def, rule processStackApprovees_tailsInv [OF wf])
  with run tails show ?thesis by (simp add: tailsInv_def)
qed

theorem find_all_tails_partial_result_witness:
  "FindAllTails missingBranch ''A'' False False =
     Some ({''B''}, Some (ErrFindAllTailsFailed ''M'')) \<and>
   (\<exists>s. FindAllTailsRun missingBranch ''A'' False False =
          Some (Some (ErrFindAllTailsFailed ''M''), s) \<and>
        {''B''} = user s \<and> {''B''} = {h. Condition h (Inr False) \<in> set (trace s)})"
proof -
  have wf: "\<forall>h t. GetCachedTransactionOrNil missingBranch h = Some t \<longrightarrow> txHash t = h"
    by (auto simp: missingBranch_def split: if_splits)
  have ret: "FindAllTails missingBranch ''A'' False False =
      Some ({''B''}, Some (ErrFindAllTailsFailed ''M''))"
    by (simp add: tails_defs approvees_defs stackLoop.simps example_defs)
  from find_all_tails_partial_result [OF wf ret] ret show ?thesis by blast
qed

section \<open>The effect of a step of the approvee traversal\<close>

lemma scanApprovees_effect:
  "scanApprovees tg onSolidEntryPoint tsep hs s = (b, s1) \<Longrightarrow> \<exists>rs. scanEffect tg tsep hs s b s1 rs"
proof (induction hs arbitrary: s)
  case Nil
  then have "scanEffect tg tsep [] s b s1 []" by (auto simp: scanEffect_def)
  then show ?case ..
next
  case (Cons a hs)
  let ?s1 = "emit [SolidEntryPoint a] (s\<lparr>user := onSolidEntryPoint a (user s)\<rparr>)"
  show ?case
  proof (cases "visited s a = None")
    case False
    with Cons.prems have "scanApprovees tg onSolidEntryPoint tsep hs s = (b, s1)" by simp
    from Cons.IH [OF this] obtain rs where rs: "scanEffect tg tsep hs s b s1 rs" ..
    then have vi: "\<And>h. visited s1 h =
        (if h \<in> set rs \<and> \<not> tsep then Some False else visited s h)"
      and su: "set rs \<subseteq> set hs"
      and st: "if b then \<exists>a\<in>set hs. stack s1 = a # stack s \<and> visited s1 a = None \<and>
                 (SolidEntryPointsContain tg a \<longrightarrow> a \<in> set rs)
             else stack s1 = stack s \<and> set hs \<subseteq> dom (visited s1)"
      unfolding scanEffect_def by blast+
    have "if b then \<exists>a'\<in>set (a # hs). stack s1 = a' # stack s \<and> visited s1 a' = None \<and>
                 (SolidEntryPointsContain tg a' \<longrightarrow> a' \<in> set rs)
             else stack s1 = stack s \<and> set (a # hs) \<subseteq> dom (visited s1)"
    proof (cases b)
      case True
      with st obtain a' where "a' \<in> set hs" "stack s1 = a' # stack s"
        "visited s1 a' = None" "SolidEntryPointsContain tg a' \<longrightarrow> a' \<in> set rs"
        by auto
      with True show ?thesis by auto
    next
      case nb: False
      with st have "stack s1 = stack s" "set hs \<subseteq> dom (visited s1)" by simp_all
      moreover have "a \<in> dom (visited s1)" using vi [of a] False by auto
      ultimately show ?thesis using nb by auto
    qed
    moreover from su have "set rs \<subseteq> set (a # hs)" by auto
    ultimately have "scanEffect tg tsep (a # hs) s b s1 rs"
      using rs unfolding scanEffect_def by blast
    then show ?thesis ..
  next
    case unvisited: True
    show ?thesis
    proof (cases "SolidEntryPointsContain tg a")
      case False
      with Cons.prems unvisited have "b" "s1 = s\<lparr>stack := a # stack s\<rparr>" by simp_all
      with unvisited False have "scanEffect tg tsep (a # hs) s b s1 []"
        by (simp add: scanEffect_def)
      then show ?thesis ..
    next
      case sep: True
      show ?thesis
      proof (cases tsep)
        case True
        with Cons.prems unvisited sep have "b" "s1 = ?s1\<lparr>stack := a # stack ?s1\<rparr>"
          by (simp_all add: Let_def)
        with unvisited sep True have "scanEffect tg tsep (a # hs) s b s1 [a]"
          by (simp add: scanEffect_def emit_def)
        then show ?thesis ..
      next
        case False
        let ?s2 = "?s1\<lparr>visited := (visited ?s1)(a \<mapsto> False)\<rparr>"
        from Cons.prems unvisited sep False
        have "scanApprovees tg onSolidEntryPoint tsep hs ?s2 = (b, s1)" by (simp add: Let_def)
        from Cons.IH [OF this] obtain rs where rs: "scanEffect tg tsep hs ?s2 b s1 rs" ..
        then have tr: "trace s1 = trace ?s2 @ map SolidEntryPoint rs"
          and po: "polls s1 = polls ?s2"
          and vi: "\<And>h. visited s1 h =
            (if h \<in> set rs \<and> \<not> tsep then Some False else visited ?s2 h)"
          and di: "distinct rs" and su: "set rs \<subseteq> set hs"
          and se: "\<And>h. h \<in> set rs \<Longrightarrow> SolidEntryPointsContain tg h \<and> visited ?s2 h = None"
          and st: "if b then \<exists>a\<in>set hs. stack s1 = a # stack ?s2 \<and> visited s1 a = None \<and>
                 (SolidEntryPointsContain tg a \<longrightarrow> a \<in> set rs)
             else stack s1 = stack ?s2 \<and> set hs \<subseteq> dom (visited s1)"
          unfolding scanEffect_def by blast+
        have nin: "a \<notin> set rs"
        proof
          assume "a \<in> set rs"
          from se [OF this] show False by (simp add: emit_def)
        qed
        have "scanEffect tg tsep (a # hs) s b s1 (a # rs)"
          unfolding scanEffect_def
        proof (intro conjI allI ballI)
          show "trace s1 = trace s @ map SolidEntryPoint (a # rs)" using tr by (simp add: emit_def)
          show "polls s1 = polls s" using po by (simp add: emit_def)
          show "distinct (a # rs)" using di nin by simp
          show "tsep \<longrightarrow> (\<forall>h\<in>set (a # rs). b \<and> stack s1 = h # stack s)"
            using False by simp
          show "set (a # rs) \<subseteq> set (a # hs)" using su by auto
        next
          fix h show "visited s1 h =
            (if h \<in> set (a # rs) \<and> \<not> tsep then Some False else visited s h)"
            using vi [of h] False by (simp add: emit_def)
        next
          fix h assume "h \<in> set (a # rs)"
          then show "SolidEntryPointsContain tg h" using se sep by auto
        next
          fix h assume "h \<in> set (a # rs)"
          then show "visited s h = None" using se [of h] unvisited
            by (auto simp: emit_def split: if_splits)
        next
          show "if b then \<exists>a'\<in>set (a # hs). stack s1 = a' # stack s \<and> visited s1 a' = None \<and>
                 (SolidEntryPointsContain tg a' \<longrightarrow> a' \<in> set (a # rs))
             else stack s1 = stack s \<and> set (a # hs) \<subseteq> dom (visited s1)"
          proof (cases b)
            case True
            with st obtain a' where "a' \<in> set hs" "stack s1 = a' # stack ?s2"
              "visited s1 a' = None" "SolidEntryPointsContain tg a' \<longrightarrow> a' \<in> set rs"
              by auto
            with True show ?thesis by (auto simp: emit_def)
          next
            case nb: False
            with st have "stack s1 = stack ?s2" "set hs \<subseteq> dom (visited s1)" by simp_all
            moreover have "a \<in> dom (visited s1)" using vi [of a] by (auto simp: emit_def)
            ultimately show ?thesis using nb by (auto simp: emit_def)
          qed
        qed
        then show ?thesis ..
      qed
    qed
  qed
qed

lemma outline_append [simp]: "outline (xs @ ys) = outline xs @ outline ys"
  by (simp add: outline_def)

lemma outline_simps [simp]:
  "outline [] = []"
  "outline (Condition h r # es) = Condition h r # outline es"
  "outline (Consume h c # es) = Consume h c # outline es"
  "outline (Missing h c # es) = Missing h c # outline es"
  "outline (SolidEntryPoint h # es) = SolidEntryPoint h # outline es"
  "outline (Enqueue h # es) = outline es"
  "outline (Acquire h # es) = outline es"
  "outline (Op a h p # es) = outline es"
  by (simp_all add: outline_def)

lemma outline_ops [simp]: "outline (map (Op a h) ops) = []"
  by (induction ops) simp_all

lemma outline_reports [simp]: "outline (map SolidEntryPoint rs) = map SolidEntryPoint rs"
  by (induction rs) simp_all

lemma finishApprovees_effect:
  assumes run: "finishApprovees tg consumer onSolidEntryPoint tsep t traverse s = (e, s1)"
    and st: "stack s = x # rest"
  obtains (excluded) "\<not> traverse" "e = None" "stack s1 = rest" "visited s1 = visited s"
      "outline (trace s1) = outline (trace s)"
  | (pushed) rs a where "traverse" "e = None" "a \<in> set (approveeHashes t)"
      "stack s1 = a # x # rest" "visited s1 a = None"
      "SolidEntryPointsContain tg a \<longrightarrow> a \<in> set rs"
      "distinct rs" "set rs \<subseteq> set (approveeHashes t)"
      "\<forall>h\<in>set rs. SolidEntryPointsContain tg h \<and> visited s h = None"
      "\<forall>h. visited s1 h = (if h \<in> set rs \<and> \<not> tsep then Some False else visited s h)"
      "outline (trace s1) = outline (trace s) @ map SolidEntryPoint rs"
      "tsep \<longrightarrow> set rs \<subseteq> {a}"
  | (consumed) rs where "traverse" "stack s1 = rest"
      "set (approveeHashes t) \<subseteq> dom (visited s1)"
      "distinct rs" "set rs \<subseteq> set (approveeHashes t)"
      "\<forall>h\<in>set rs. SolidEntryPointsContain tg h \<and> visited s h = None"
      "\<forall>h. visited s1 h = (if h \<in> set rs \<and> \<not> tsep then Some False else visited s h)"
      "outline (trace s1) = outline (trace s) @ map SolidEntryPoint rs @ [Consume x e]"
      "tsep \<longrightarrow> rs = []"
  using run
proof (cases rule: finishApprovees_cases)
  case skip
  with st show ?thesis by (intro excluded) simp_all
next
  case push
  from scanApprovees_effect [OF push(3)] obtain rs
    where "scanEffect tg tsep (approveeHashes t) s True s1 rs" ..
  then have tr: "trace s1 = trace s @ map SolidEntryPoint rs"
    and vi: "\<forall>h. visited s1 h = (if h \<in> set rs \<and> \<not> tsep then Some False else visited s h)"
    and di: "distinct rs" and su: "set rs \<subseteq> set (approveeHashes t)"
    and se: "\<forall>h\<in>set rs. SolidEntryPointsContain tg h \<and> visited s h = None"
    and pu: "\<exists>a\<in>set (approveeHashes t). stack s1 = a # stack s \<and> visited s1 a = None \<and>
                 (SolidEntryPointsContain tg a \<longrightarrow> a \<in> set rs)"
    and ts: "tsep \<longrightarrow> (\<forall>h\<in>set rs. True \<and> stack s1 = h # stack s)"
    unfolding scanEffect_def if_True by blast+
  from pu obtain a where a: "a \<in> set (approveeHashes t)" "stack s1 = a # stack s"
    "visited s1 a = None" "SolidEntryPointsContain tg a \<longrightarrow> a \<in> set rs" by blast
  from ts a(2) have ts': "tsep \<longrightarrow> set rs \<subseteq> {a}" by auto
  show ?thesis
    by (rule pushed [of a rs]) (use push a st vi di su se ts' in \<open>simp_all add: tr\<close>)
next
  case (consume s' ops u)
  from scanApprovees_effect [OF consume(2)] obtain rs
    where "scanEffect tg tsep (approveeHashes t) s False s' rs" ..
  then have tr: "trace s' = trace s @ map SolidEntryPoint rs"
    and vi: "\<forall>h. visited s' h = (if h \<in> set rs \<and> \<not> tsep then Some False else visited s h)"
    and di: "distinct rs" and su: "set rs \<subseteq> set (approveeHashes t)"
    and se: "\<forall>h\<in>set rs. SolidEntryPointsContain tg h \<and> visited s h = None"
    and pu: "stack s' = stack s" "set (approveeHashes t) \<subseteq> dom (visited s')"
    and ts: "tsep \<longrightarrow> (\<forall>h\<in>set rs. False \<and> stack s' = h # stack s)"
    unfolding scanEffect_def if_False by blast+
  from ts have ts': "tsep \<longrightarrow> rs = []" by (cases rs) auto
  have v1: "visited s1 = visited s'" and s1: "stack s1 = rest"
    and t1: "outline (trace s1) = outline (trace s) @ map SolidEntryPoint rs @ [Consume x e]"
    using consume(4) pu(1) st by (simp_all add: emit_def tr)
  show ?thesis
    by (rule consumed [of rs]) (use consume(1) s1 t1 di su se pu(2) vi ts' in \<open>simp_all add: v1\<close>)
qed


lemma resolvedApprovees_effect:
  assumes run: "resolvedApprovees tg condition consumer onSolidEntryPoint tsep t s = (e, s1)"
    and st: "stack s = x # rest"
  obtains (failed) err where "visited s x = None" "e = Some err" "stack s1 = stack s"
      "visited s1 = visited s"
      "outline (trace s1) = outline (trace s) @ [Condition x (Inl err)]"
  | (decided) traverse s' where "visited s x = None \<or> visited s x = Some traverse"
      "stack s' = stack s" "visited s' = (visited s)(x \<mapsto> traverse)"
      "outline (trace s') = outline (trace s) @
         (if visited s x = None then [Condition x (Inr traverse)] else [])"
      "finishApprovees tg consumer onSolidEntryPoint tsep t traverse s' = (e, s1)"
  using run
proof (cases rule: resolvedApprovees_cases)
  case (memo traverse)
  from memo(1) st have v: "visited s x = Some traverse" by simp
  then have "(visited s)(x \<mapsto> traverse) = visited s" by (simp add: fun_upd_idem_iff)
  with v memo(2) show ?thesis by (intro decided [of traverse s]) simp_all
next
  case (failed err ops u)
  with st show ?thesis by (intro that(1) [of err]) (simp_all add: emit_def)
next
  case (evaluated traverse ops u)
  with st show ?thesis
    by (intro decided [of traverse "(emit (Op Engine (hd (stack s)) Retain #
          Condition (hd (stack s)) (Inr traverse) # map (Op Callback (hd (stack s))) ops)
          (s\<lparr>user := u\<rparr>))\<lparr>visited := (visited s)(hd (stack s) \<mapsto> traverse)\<rparr>"])
      (simp_all add: emit_def)
qed

lemma processStackApprovees_effect:
  assumes run: "processStackApprovees tg condition consumer onMissingApprovee onSolidEntryPoint
      forceRelease tsep abortSignal s = (e, s1)"
    and ne: "stack s \<noteq> []"
  obtains (aborted) "stack s1 = stack s" "visited s1 = visited s"
      "outline (trace s1) = outline (trace s)" "e = Some ErrOperationAborted"
  | (missing) x rest where "stack s = x # rest" "GetCachedTransactionOrNil tg x = None"
      "stack s1 = rest" "visited s1 = (visited s)(x \<mapsto> False)"
      "outline (trace s1) = outline (trace s) @ [Missing x e]"
  | (failed) x rest t err where "stack s = x # rest" "GetCachedTransactionOrNil tg x = Some t"
      "visited s x = None" "e = Some err" "stack s1 = stack s" "visited s1 = visited s"
      "outline (trace s1) = outline (trace s) @ [Condition x (Inl err)]"
  | (excluded) x rest t where "stack s = x # rest" "GetCachedTransactionOrNil tg x = Some t"
      "visited s x \<noteq> Some True" "e = None" "stack s1 = rest"
      "visited s1 = (visited s)(x \<mapsto> False)"
      "outline (trace s1) = outline (trace s) @
         (if visited s x = None then [Condition x (Inr False)] else [])"
  | (pushed) x rest t rs a where "stack s = x # rest" "GetCachedTransactionOrNil tg x = Some t"
      "visited s x \<noteq> Some False" "e = None" "a \<in> set (approveeHashes t)"
      "stack s1 = a # x # rest" "visited s1 a = None"
      "SolidEntryPointsContain tg a \<longrightarrow> a \<in> set rs"
      "distinct rs" "set rs \<subseteq> set (approveeHashes t)"
      "\<forall>h\<in>set rs. SolidEntryPointsContain tg h \<and> visited s h = None \<and> h \<noteq> x"
      "\<forall>h. visited s1 h = (if h \<in> set rs \<and> \<not> tsep then Some False
                            else if h = x then Some True else visited s h)"
      "outline (trace s1) = outline (trace s) @
         (if visited s x = None then [Condition x (Inr True)] else []) @ map SolidEntryPoint rs"
      "tsep \<longrightarrow> set rs \<subseteq> {a}"
  | (consumed) x rest t rs where "stack s = x # rest" "GetCachedTransactionOrNil tg x = Some t"
      "visited s x \<noteq> Some False" "stack s1 = rest"
      "set (approveeHashes t) \<subseteq> dom (visited s1)"
      "distinct rs" "set rs \<subseteq> set (approveeHashes t)"
      "\<forall>h\<in>set rs. SolidEntryPointsContain tg h \<and> visited s h = None \<and> h \<noteq> x"
      "\<forall>h. visited s1 h = (if h \<in> set rs \<and> \<not> tsep then Some False
                            else if h = x then Some True else visited s h)"
      "outline (trace s1) = outline (trace s) @
         (if visited s x = None then [Condition x (Inr True)] else []) @ map SolidEntryPoint rs @
         [Consume x e]"
      "tsep \<longrightarrow> rs = []"
  using run ne
proof (cases rule: processStackApprovees_cases)
  case aborted
  then show ?thesis by (intro that(1)) simp_all
next
  case (missing h rest u)
  then show ?thesis by (intro that(2) [of h rest]) (simp_all add: emit_def)
next
  case (resolved x rest t s2)
  let ?sa = "emit [Acquire x] (s\<lparr>polls := Suc (polls s)\<rparr>)"
  have sa: "stack ?sa = x # rest" "visited ?sa = visited s"
    "outline (trace ?sa) = outline (trace s)"
    using resolved(1) by (simp_all add: emit_def)
  have s1: "stack s1 = stack s2" "visited s1 = visited s2"
    "outline (trace s1) = outline (trace s2)"
    using resolved(4) by (simp_all add: emit_def)
  from resolved(3) sa(1) show ?thesis
  proof (cases rule: resolvedApprovees_effect)
    case (failed err)
    with resolved(1,2) sa s1 show ?thesis by (intro that(3) [of x rest t err]) simp_all
  next
    case (decided traverse sb)
    from decided(2) sa(1) have sb: "stack sb = x # rest" by simp
    from decided(5) sb show ?thesis
    proof (cases rule: finishApprovees_effect)
      case excluded
      with decided resolved(1,2) sa s1 show ?thesis
        by (intro that(4) [of x rest t]) auto
    next
      case (pushed rs a)
      have "\<forall>h\<in>set rs. SolidEntryPointsContain tg h \<and> visited s h = None \<and> h \<noteq> x"
        using pushed(9) decided(3) sa(2) by (auto split: if_splits)
      moreover have "\<forall>h. visited s1 h = (if h \<in> set rs \<and> \<not> tsep then Some False
                            else if h = x then Some True else visited s h)"
        using pushed(10) pushed(1) decided(3) sa(2) s1(2) by simp
      moreover have "outline (trace s1) = outline (trace s) @
         (if visited s x = None then [Condition x (Inr True)] else []) @ map SolidEntryPoint rs"
        using pushed(11) pushed(1) decided(4) sa s1(3) by simp
      moreover have "visited s x \<noteq> Some False" using decided(1) pushed(1) sa(2) by auto
      ultimately show ?thesis
        using pushed resolved(1,2) s1
        by (intro that(5) [of x rest t a rs]) simp_all
    next
      case (consumed rs)
      have "\<forall>h\<in>set rs. SolidEntryPointsContain tg h \<and> visited s h = None \<and> h \<noteq> x"
        using consumed(6) decided(3) sa(2) by (auto split: if_splits)
      moreover have "\<forall>h. visited s1 h = (if h \<in> set rs \<and> \<not> tsep then Some False
                            else if h = x then Some True else visited s h)"
        using consumed(7) consumed(1) decided(3) sa(2) s1(2) by simp
      moreover have "outline (trace s1) = outline (trace s) @
         (if visited s x = None then [Condition x (Inr True)] else []) @ map SolidEntryPoint rs @
         [Consume x e]"
        using consumed(8) consumed(1) decided(4) sa s1(3) by simp
      moreover have "visited s x \<noteq> Some False" using decided(1) consumed(1) sa(2) by auto
      ultimately show ?thesis
        using consumed resolved(1,2) s1
        by (intro that(6) [of x rest t rs]) simp_all
    qed
  qed
qed



section \<open>Solid entry points are reported once\<close>

lemma reported_append [simp]: "reported (xs @ ys) = reported xs @ reported ys"
  by (simp add: reported_def map_filter_append)

lemma reported_simps [simp]:
  "reported [] = []"
  "reported (SolidEntryPoint h # es) = h # reported es"
  "reported (Condition h r # es) = reported es"
  "reported (Enqueue h # es) = reported es"
  "reported (Acquire h # es) = reported es"
  "reported (Op a h p # es) = reported es"
  "reported (Consume h c # es) = reported es"
  "reported (Missing h c # es) = reported es"
  by (simp_all add: reported_def)

lemma reported_reports [simp]: "reported (map SolidEntryPoint rs) = rs"
  by (induction rs) simp_all

lemma reported_outline [simp]: "reported (outline tr) = reported tr"
proof (induction tr)
  case Nil
  show ?case by simp
next
  case (Cons e tr)
  then show ?case by (cases e) simp_all
qed

lemma consumedAfter_append:
  "consumedAfter P pre (xs @ ys) = (consumedAfter P pre xs \<and> consumedAfter P (pre @ xs) ys)"
  by (induction P pre xs rule: consumedAfter.induct) simp_all

lemma consumedAfter_reports [simp]: "consumedAfter P pre (map SolidEntryPoint rs)"
  by (induction rs arbitrary: pre) simp_all

lemma consumedAfter_Consume:
  "consumedAfter P [] (pre @ Consume x c # post) \<Longrightarrow> P x pre"
  by (simp add: consumedAfter_append)

lemma outline_Consume:
  "tr = pre @ Consume x c # post \<Longrightarrow> outline tr = outline pre @ Consume x c # outline post"
  by simp

lemma in_set_tlD: "h \<in> set (tl xs) \<Longrightarrow> h \<in> set xs"
  by (cases xs) auto

lemma sepInv_step:
  assumes run: "processStackApprovees tg condition consumer onMissingApprovee onSolidEntryPoint
      forceRelease tsep abortSignal s = (e, s1)"
    and ne: "stack s \<noteq> []"
    and inv: "sepInv tg startTxHash s"
  shows "sepInv tg startTxHash s1"
proof -
  let ?ol = "outline (trace s)"
  from inv have di: "distinct (reported (trace s))"
    and rep: "\<And>h. h \<in> set (reported (trace s)) \<Longrightarrow>
       SolidEntryPointsContain tg h \<and> (visited s h \<noteq> None \<or> h \<in> set (stack s))"
    and bd: "\<And>h. visited s h \<noteq> None \<or> h \<in> set (stack s) \<Longrightarrow> SolidEntryPointsContain tg h \<Longrightarrow>
       h = startTxHash \<or> h \<in> set (reported (trace s))"
    and tl: "\<And>h. h \<in> set (tl (stack s)) \<Longrightarrow> visited s h \<noteq> None"
    and ord: "consumedAfter (boundaryReported tg startTxHash) [] ?ol"
    unfolding sepInv_def reported_outline by blast+
  from run ne show ?thesis
  proof (cases rule: processStackApprovees_effect)
    case aborted
    with inv show ?thesis by (simp add: sepInv_def)
  next
    case (missing x rest)
    with di rep bd tl ord show ?thesis
      unfolding sepInv_def by (auto simp: consumedAfter_append dest: in_set_tlD)
  next
    case (failed x rest t err)
    with di rep bd tl ord show ?thesis
      unfolding sepInv_def by (auto simp: consumedAfter_append)
  next
    case (excluded x rest t)
    with di rep bd tl ord show ?thesis
      unfolding sepInv_def by (auto simp: consumedAfter_append dest: in_set_tlD)
  next
    case (pushed x rest t rs a)
    have rs: "h \<in> set rs \<Longrightarrow> SolidEntryPointsContain tg h \<and> visited s h = None \<and> h \<noteq> x" for h
      using pushed(11) by blast
    have vi: "visited s1 h = (if h \<in> set rs \<and> \<not> tsep then Some False
        else if h = x then Some True else visited s h)" for h
      using pushed(12) by blast
    have fresh: "h \<notin> set (reported (trace s))" if "h \<in> set rs" for h
    proof
      assume "h \<in> set (reported (trace s))"
      from rep [OF this] rs [OF that] pushed(1) have "h \<in> set rest" by auto
      with tl [of h] pushed(1) rs [OF that] show False by simp
    qed
    have ol: "reported (outline (trace s1)) = reported (trace s) @ rs"
      using pushed(13) by simp
    show ?thesis
      unfolding sepInv_def ol
    proof (intro conjI ballI allI impI)
      show "distinct (reported (trace s) @ rs)" using di pushed(9) fresh by auto
    next
      fix h assume h: "h \<in> set (reported (trace s) @ rs)"
      then show "SolidEntryPointsContain tg h" using rep rs by auto
      show "visited s1 h \<noteq> None \<or> h \<in> set (stack s1)"
      proof (cases "h \<in> set rs")
        case True
        then show ?thesis using vi [of h] pushed(14) pushed(6) by auto
      next
        case False
        with h rep [of h] have "visited s h \<noteq> None \<or> h \<in> set (stack s)" by auto
        then show ?thesis using vi [of h] pushed(1,6) by auto
      qed
    next
      fix h assume h: "visited s1 h \<noteq> None \<or> h \<in> set (stack s1)"
        and sep: "SolidEntryPointsContain tg h"
      show "h = startTxHash \<or> h \<in> set (reported (trace s) @ rs)"
      proof (cases "h \<in> set rs \<or> h = a")
        case True
        with pushed(8) sep show ?thesis by auto
      next
        case False
        with h vi [of h] pushed(1,6) have "visited s h \<noteq> None \<or> h \<in> set (stack s)"
          by (auto split: if_splits)
        from bd [OF this sep] show ?thesis by auto
      qed
    next
      fix h assume "h \<in> set (tl (stack s1))"
      with pushed(6) have "h = x \<or> h \<in> set rest" by simp
      then show "visited s1 h \<noteq> None" using vi [of h] tl [of h] pushed(1) by auto
    next
      show "consumedAfter (boundaryReported tg startTxHash) [] (outline (trace s1))"
        using ord pushed(13) by (simp add: consumedAfter_append)
    qed
  next
    case (consumed x rest t rs)
    have rs: "h \<in> set rs \<Longrightarrow> SolidEntryPointsContain tg h \<and> visited s h = None \<and> h \<noteq> x" for h
      using consumed(8) by blast
    have vi: "visited s1 h = (if h \<in> set rs \<and> \<not> tsep then Some False
        else if h = x then Some True else visited s h)" for h
      using consumed(9) by blast
    have fresh: "h \<notin> set (reported (trace s))" if "h \<in> set rs" for h
    proof
      assume "h \<in> set (reported (trace s))"
      from rep [OF this] rs [OF that] consumed(1) have "h \<in> set rest" by auto
      with tl [of h] consumed(1) rs [OF that] show False by simp
    qed
    have ol: "reported (outline (trace s1)) = reported (trace s) @ rs"
      using consumed(10) by simp
    show ?thesis
      unfolding sepInv_def ol
    proof (intro conjI ballI allI impI)
      show "distinct (reported (trace s) @ rs)" using di consumed(6) fresh by auto
    next
      fix h assume h: "h \<in> set (reported (trace s) @ rs)"
      then show "SolidEntryPointsContain tg h" using rep rs by auto
      show "visited s1 h \<noteq> None \<or> h \<in> set (stack s1)"
      proof (cases "h \<in> set rs")
        case True
        then show ?thesis using vi [of h] consumed(11) by auto
      next
        case False
        with h rep [of h] have "visited s h \<noteq> None \<or> h \<in> set (stack s)" by auto
        then show ?thesis using vi [of h] consumed(1,4) by auto
      qed
    next
      fix h assume h: "visited s1 h \<noteq> None \<or> h \<in> set (stack s1)"
        and sep: "SolidEntryPointsContain tg h"
      show "h = startTxHash \<or> h \<in> set (reported (trace s) @ rs)"
      proof (cases "h \<in> set rs")
        case True
        then show ?thesis by auto
      next
        case False
        with h vi [of h] consumed(1,4) have "visited s h \<noteq> None \<or> h \<in> set (stack s)"
          by (auto split: if_splits)
        from bd [OF this sep] show ?thesis by auto
      qed
    next
      fix h assume "h \<in> set (tl (stack s1))"
      with consumed(4) have "h \<in> set rest" by (auto dest: in_set_tlD)
      then show "visited s1 h \<noteq> None" using vi [of h] tl [of h] consumed(1) by auto
    next
      let ?pre = "outline (trace s) @
         (if visited s x = None then [Condition x (Inr True)] else []) @ map SolidEntryPoint rs"
      have "boundaryReported tg startTxHash x ?pre"
        unfolding boundaryReported_def
      proof (intro allI impI)
        fix t' a assume t': "GetCachedTransactionOrNil tg x = Some t'"
          and a: "a \<in> set (approveeHashes t')" and sep: "SolidEntryPointsContain tg a"
          and ns: "a \<noteq> startTxHash"
        from t' consumed(2) have "t' = t" by simp
        with a consumed(5) have "visited s1 a \<noteq> None" by auto
        then have "a \<in> set rs \<or> visited s a \<noteq> None \<or> a \<in> set (stack s)"
          using vi [of a] consumed(1) by (auto split: if_splits)
        then show "a \<in> set (reported ?pre)"
          using bd [of a] sep ns by auto
      qed
      then show "consumedAfter (boundaryReported tg startTxHash) [] (outline (trace s1))"
        using ord consumed(10) by (simp add: consumedAfter_append)
    qed
  qed
qed


text \<open>
  Claim C9 says that the solid-entry-point callback is called for every transaction whose
  trunk or branch is a solid entry point, also when several transactions reference the same
  one. In the diamond both \<open>B\<close> and \<open>C\<close> have the solid entry point \<open>D\<close> as trunk, both
  are consumed, and \<open>D\<close> is reported once, while \<open>B\<close> is scanned: line 142 then marks it
  as visited, so that the scan of \<open>C\<close> skips it.
\<close>

theorem boundary_reported_counterexample:
  "map_option (outline \<circ> trace \<circ> snd)
     (TraverseApprovees diamond ''A'' acceptAll consumeAll ignoreMissing ignoreSolidEntryPoint
        False False (\<lambda>k. False) ()) =
   Some [Condition ''A'' (Inr True), Condition ''B'' (Inr True), SolidEntryPoint ''D'',
         Consume ''B'' None, Condition ''C'' (Inr True), Consume ''C'' None,
         Consume ''A'' None] \<and>
   map_option trunkHash (GetCachedTransactionOrNil diamond ''B'') = Some ''D'' \<and>
   map_option trunkHash (GetCachedTransactionOrNil diamond ''C'') = Some ''D'' \<and>
   SolidEntryPointsContain diamond ''D''"
  by (simp add: approvees_defs stackLoop.simps example_defs)

text \<open>
  Claim C9, as amended. The callback is called for an approvee that is a solid entry point
  when a scan meets it without an entry in the visited map: in every call that returns, only
  solid entry points are reported, none of them twice, and when a transaction is
  consumed, every solid entry point among its approvees, the start hash apart, has been
  reported before.
\<close>

theorem boundary_reported_once:
  assumes "TraverseApprovees tg startTxHash condition consumer onMissingApprovee
      onSolidEntryPoint forceRelease traverseSolidEntryPoints abortSignal u = Some (r, s)"
  shows "distinct (reported (trace s)) \<and>
    (\<forall>h\<in>set (reported (trace s)). SolidEntryPointsContain tg h) \<and>
    (\<forall>pre x c post t a. trace s = pre @ Consume x c # post \<longrightarrow>
       GetCachedTransactionOrNil tg x = Some t \<longrightarrow> a \<in> set (approveeHashes t) \<longrightarrow>
       SolidEntryPointsContain tg a \<longrightarrow> a \<noteq> startTxHash \<longrightarrow> a \<in> set (reported pre))"
proof -
  let ?step = "processStackApprovees tg condition consumer onMissingApprovee onSolidEntryPoint
      forceRelease traverseSolidEntryPoints abortSignal"
  let ?s0 = "\<lparr>user = u, trace = [], polls = 0, stack = [startTxHash], visited = Map.empty\<rparr>"
  from assms have run: "stackLoop stack ?step ?s0 = Some (r, s)"
    by (simp add: TraverseApprovees_def)
  have inv: "sepInv tg startTxHash s"
  proof (rule stackLoop_invariant [OF run, where I = "sepInv tg startTxHash"])
    show "sepInv tg startTxHash ?s0" by (simp add: sepInv_def)
  next
    fix s e s1 assume "sepInv tg startTxHash s" "stack s \<noteq> []" "?step s = (e, s1)"
    from sepInv_step [OF this(3,2,1)] show "sepInv tg startTxHash s1" .
  qed
  then have ord: "consumedAfter (boundaryReported tg startTxHash) [] (outline (trace s))"
    by (simp add: sepInv_def)
  have "a \<in> set (reported pre)"
    if "trace s = pre @ Consume x c # post" "GetCachedTransactionOrNil tg x = Some t"
      "a \<in> set (approveeHashes t)" "SolidEntryPointsContain tg a" "a \<noteq> startTxHash"
    for pre x c post t a
  proof -
    from ord outline_Consume [OF that(1)]
    have "boundaryReported tg startTxHash x (outline pre)"
      by (auto dest: consumedAfter_Consume)
    with that(2-5) show ?thesis by (auto simp: boundaryReported_def)
  qed
  with inv show ?thesis unfolding sepInv_def reported_outline by blast
qed

theorem boundary_reported_once_witness:
  "\<exists>r s. TraverseApprovees diamond ''A'' acceptAll consumeAll ignoreMissing ignoreSolidEntryPoint
       False False (\<lambda>k. False) () = Some (r, s) \<and>
     reported (trace s) = [''D''] \<and> distinct (reported (trace s)) \<and>
     (\<forall>h\<in>set (reported (trace s)). SolidEntryPointsContain diamond h) \<and>
     (\<forall>pre x c post t a. trace s = pre @ Consume x c # post \<longrightarrow>
        GetCachedTransactionOrNil diamond x = Some t \<longrightarrow> a \<in> set (approveeHashes t) \<longrightarrow>
        SolidEntryPointsContain diamond a \<longrightarrow> a \<noteq> ''A'' \<longrightarrow> a \<in> set (reported pre))"
proof -
  have "map_option (\<lambda>(r, s). reported (trace s))
      (TraverseApprovees diamond ''A'' acceptAll consumeAll ignoreMissing ignoreSolidEntryPoint
         False False (\<lambda>k. False) ()) = Some [''D'']"
    by (simp add: approvees_defs stackLoop.simps example_defs)
  then obtain r s where
    run: "TraverseApprovees diamond ''A'' acceptAll consumeAll ignoreMissing ignoreSolidEntryPoint
         False False (\<lambda>k. False) () = Some (r, s)"
    and obs: "reported (trace s) = [''D'']"
    by auto
  from boundary_reported_once [OF run] run obs show ?thesis by blast
qed



section \<open>A transaction is consumed after its approvees\<close>

lemma settled_mono: "settled tsep a pre \<Longrightarrow> set pre \<subseteq> set pre' \<Longrightarrow> settled tsep a pre'"
  unfolding settled_def by blast

lemma set_outline: "set (outline tr) \<subseteq> set tr"
  by (auto simp: outline_def)

lemma orderInv_step:
  assumes acyc: "acyclic (approveeRel tg)"
    and run: "processStackApprovees tg condition consumer onMissingApprovee onSolidEntryPoint
      forceRelease tsep abortSignal s = (e, s1)"
    and ne: "stack s \<noteq> []"
    and inv: "orderInv tg tsep s"
  shows "orderInv tg tsep s1"
proof -
  let ?R = "approveeRel tg"
  let ?ol = "outline (trace s)"
  from inv have ch: "sorted_wrt (\<lambda>a b. (b, a) \<in> ?R\<^sup>+) (stack s)"
    and tr: "\<And>h. visited s h = Some True \<Longrightarrow> h \<in> set (stack s) \<or> (\<exists>c. Consume h c \<in> set ?ol)"
    and fa: "\<And>h. visited s h = Some False \<Longrightarrow> (\<exists>c. Missing h c \<in> set ?ol) \<or>
       Condition h (Inr False) \<in> set ?ol \<or> (\<not> tsep \<and> SolidEntryPoint h \<in> set ?ol)"
    and ord: "consumedAfter (approveesSettled tg tsep) [] ?ol"
    unfolding orderInv_def by blast+
  from run ne show ?thesis
  proof (cases rule: processStackApprovees_effect)
    case aborted
    with inv show ?thesis by (simp add: orderInv_def)
  next
    case (missing x rest)
    show ?thesis
      unfolding orderInv_def
    proof (intro conjI allI impI)
      show "sorted_wrt (\<lambda>a b. (b, a) \<in> ?R\<^sup>+) (stack s1)" using ch missing(1,3) by simp
    next
      fix h assume "visited s1 h = Some True"
      with missing(4) have "h \<noteq> x" "visited s h = Some True" by (auto split: if_splits)
      with tr [of h] missing(1,3,5) show "h \<in> set (stack s1) \<or>
          (\<exists>c. Consume h c \<in> set (outline (trace s1)))" by auto
    next
      fix h assume "visited s1 h = Some False"
      with missing(4) have "h = x \<or> visited s h = Some False" by (auto split: if_splits)
      with fa [of h] missing(5) show "(\<exists>c. Missing h c \<in> set (outline (trace s1))) \<or>
          Condition h (Inr False) \<in> set (outline (trace s1)) \<or>
          (\<not> tsep \<and> SolidEntryPoint h \<in> set (outline (trace s1)))" by auto
    next
      show "consumedAfter (approveesSettled tg tsep) [] (outline (trace s1))"
        using ord missing(5) by (simp add: consumedAfter_append)
    qed
  next
    case (failed x rest t err)
    with ch tr fa ord show ?thesis
      unfolding orderInv_def by (auto simp: consumedAfter_append)
  next
    case (excluded x rest t)
    show ?thesis
      unfolding orderInv_def
    proof (intro conjI allI impI)
      show "sorted_wrt (\<lambda>a b. (b, a) \<in> ?R\<^sup>+) (stack s1)" using ch excluded(1,5) by simp
    next
      fix h assume "visited s1 h = Some True"
      with excluded(6) have "h \<noteq> x" "visited s h = Some True" by (auto split: if_splits)
      with tr [of h] excluded(1,5,7) show "h \<in> set (stack s1) \<or>
          (\<exists>c. Consume h c \<in> set (outline (trace s1)))" by auto
    next
      fix h assume "visited s1 h = Some False"
      with excluded(6) have "h = x \<or> visited s h = Some False" by (auto split: if_splits)
      moreover have "visited s x = None \<or> visited s x = Some False"
        using excluded(3) by (cases "visited s x") auto
      ultimately show "(\<exists>c. Missing h c \<in> set (outline (trace s1))) \<or>
          Condition h (Inr False) \<in> set (outline (trace s1)) \<or>
          (\<not> tsep \<and> SolidEntryPoint h \<in> set (outline (trace s1)))"
        using fa [of h] fa [of x] excluded(7) by auto
    next
      show "consumedAfter (approveesSettled tg tsep) [] (outline (trace s1))"
        using ord excluded(7) by (simp add: consumedAfter_append)
    qed
  next
    case (pushed x rest t rs a)
    have vi: "visited s1 h = (if h \<in> set rs \<and> \<not> tsep then Some False
        else if h = x then Some True else visited s h)" for h
      using pushed(12) by blast
    have xa: "(x, a) \<in> ?R" using pushed(2,5) by (auto simp: approveeRel_def)
    show ?thesis
      unfolding orderInv_def
    proof (intro conjI allI impI)
      have "(y, a) \<in> ?R\<^sup>+" if "y \<in> set (x # rest)" for y
      proof (cases "y = x")
        case True
        with xa show ?thesis by auto
      next
        case False
        with that ch pushed(1) have "(y, x) \<in> ?R\<^sup>+" by auto
        from this xa show ?thesis by (rule trancl_into_trancl)
      qed
      with ch pushed(1,6) show "sorted_wrt (\<lambda>a b. (b, a) \<in> ?R\<^sup>+) (stack s1)" by simp
    next
      fix h assume "visited s1 h = Some True"
      with vi [of h] have "h = x \<or> visited s h = Some True" by (auto split: if_splits)
      with tr [of h] pushed(1,6,13) show "h \<in> set (stack s1) \<or>
          (\<exists>c. Consume h c \<in> set (outline (trace s1)))" by auto
    next
      fix h assume "visited s1 h = Some False"
      with vi [of h] have "h \<in> set rs \<and> \<not> tsep \<or> visited s h = Some False"
        by (auto split: if_splits)
      with fa [of h] pushed(13) show "(\<exists>c. Missing h c \<in> set (outline (trace s1))) \<or>
          Condition h (Inr False) \<in> set (outline (trace s1)) \<or>
          (\<not> tsep \<and> SolidEntryPoint h \<in> set (outline (trace s1)))" by auto
    next
      show "consumedAfter (approveesSettled tg tsep) [] (outline (trace s1))"
        using ord pushed(13) by (simp add: consumedAfter_append)
    qed
  next
    case (consumed x rest t rs)
    have vi: "visited s1 h = (if h \<in> set rs \<and> \<not> tsep then Some False
        else if h = x then Some True else visited s h)" for h
      using consumed(9) by blast
    let ?pre = "?ol @ (if visited s x = None then [Condition x (Inr True)] else []) @
      map SolidEntryPoint rs"
    have ol1: "outline (trace s1) = ?pre @ [Consume x e]" using consumed(10) by simp
    show ?thesis
      unfolding orderInv_def
    proof (intro conjI allI impI)
      show "sorted_wrt (\<lambda>a b. (b, a) \<in> ?R\<^sup>+) (stack s1)" using ch consumed(1,4) by simp
    next
      fix h assume "visited s1 h = Some True"
      with vi [of h] have "h = x \<or> visited s h = Some True" by (auto split: if_splits)
      with tr [of h] consumed(1,4) show "h \<in> set (stack s1) \<or>
          (\<exists>c. Consume h c \<in> set (outline (trace s1)))" unfolding ol1 by auto
    next
      fix h assume "visited s1 h = Some False"
      with vi [of h] have "h \<in> set rs \<and> \<not> tsep \<or> visited s h = Some False"
        by (auto split: if_splits)
      with fa [of h] show "(\<exists>c. Missing h c \<in> set (outline (trace s1))) \<or>
          Condition h (Inr False) \<in> set (outline (trace s1)) \<or>
          (\<not> tsep \<and> SolidEntryPoint h \<in> set (outline (trace s1)))" unfolding ol1 by auto
    next
      have "approveesSettled tg tsep x ?pre"
        unfolding approveesSettled_def
      proof (intro allI impI)
        fix t' a assume t': "GetCachedTransactionOrNil tg x = Some t'"
          and a: "a \<in> set (approveeHashes t')"
        from t' consumed(2) have "t' = t" by simp
        with a consumed(5) have va: "visited s1 a \<noteq> None" by auto
        from t' a have xa: "(x, a) \<in> ?R" by (auto simp: approveeRel_def)
        have nx: "a \<noteq> x"
        proof
          assume "a = x"
          with xa have "(x, x) \<in> ?R\<^sup>+" by auto
          with acyc show False by (simp add: acyclic_def)
        qed
        have nst: "a \<notin> set (stack s)"
        proof
          assume "a \<in> set (stack s)"
          with nx consumed(1) ch have "(a, x) \<in> ?R\<^sup>+" by auto
          with xa have "(x, x) \<in> ?R\<^sup>+" by (auto intro: trancl_into_trancl2)
          with acyc show False by (simp add: acyclic_def)
        qed
        show "settled tsep a ?pre"
        proof (cases "a \<in> set rs")
          case True
          with consumed(11) have "\<not> tsep" by auto
          with True show ?thesis by (auto simp: settled_def)
        next
          case False
          with va vi [of a] nx obtain b where b: "visited s a = Some b" by auto
          show ?thesis
          proof (cases b)
            case True
            with b tr [of a] nst show ?thesis by (auto simp: settled_def)
          next
            case False
            with b fa [of a] show ?thesis by (auto simp: settled_def)
          qed
        qed
      qed
      with ord show "consumedAfter (approveesSettled tg tsep) [] (outline (trace s1))"
        unfolding ol1 by (simp add: consumedAfter_append)
    qed
  qed
qed


lemma approveeHashes_set: "a \<in> set (approveeHashes t) \<longleftrightarrow> a = trunkHash t \<or> a = branchHash t"
  by (auto simp: approveeHashes_def)

text \<open>
  Claim C1. On a store whose approvee references are acyclic, in the trace of every approvee
  traversal that returns (with an error or without), each call of the consumer on a
  transaction \<open>x\<close> comes after each approvee of \<open>x\<close>, the trunk and the branch, was
  settled: consumed, found missing, excluded by the predicate, or reported as a solid entry
  point while solid entry points are not traversed.
\<close>

theorem consumed_after_approvees:
  assumes acyc: "acyclic (approveeRel tg)"
    and ret: "TraverseApprovees tg startTxHash condition consumer onMissingApprovee
      onSolidEntryPoint forceRelease traverseSolidEntryPoints abortSignal u = Some (r, s)"
    and tr: "trace s = pre @ Consume x c # post"
    and tx: "GetCachedTransactionOrNil tg x = Some t"
    and a: "a = trunkHash t \<or> a = branchHash t"
  shows "(\<exists>c. Consume a c \<in> set pre) \<or> (\<exists>c. Missing a c \<in> set pre) \<or>
    Condition a (Inr False) \<in> set pre \<or>
    (\<not> traverseSolidEntryPoints \<and> SolidEntryPoint a \<in> set pre)"
proof -
  let ?step = "processStackApprovees tg condition consumer onMissingApprovee onSolidEntryPoint
      forceRelease traverseSolidEntryPoints abortSignal"
  let ?s0 = "\<lparr>user = u, trace = [], polls = 0, stack = [startTxHash], visited = Map.empty\<rparr>"
  from ret have run: "stackLoop stack ?step ?s0 = Some (r, s)"
    by (simp add: TraverseApprovees_def)
  have "orderInv tg traverseSolidEntryPoints s"
  proof (rule stackLoop_invariant [OF run, where I = "orderInv tg traverseSolidEntryPoints"])
    show "orderInv tg traverseSolidEntryPoints ?s0" by (simp add: orderInv_def)
  next
    fix s e s1 assume "orderInv tg traverseSolidEntryPoints s" "stack s \<noteq> []"
      "?step s = (e, s1)"
    from orderInv_step [OF acyc this(3,2,1)] show "orderInv tg traverseSolidEntryPoints s1" .
  qed
  then have "consumedAfter (approveesSettled tg traverseSolidEntryPoints) []
      (outline (trace s))"
    by (simp add: orderInv_def)
  with outline_Consume [OF tr]
  have "approveesSettled tg traverseSolidEntryPoints x (outline pre)"
    by (auto dest: consumedAfter_Consume)
  with tx a have "settled traverseSolidEntryPoints a (outline pre)"
    by (auto simp: approveesSettled_def approveeHashes_set)
  from settled_mono [OF this set_outline] show ?thesis by (simp add: settled_def)
qed

theorem consumed_after_approvees_witness:
  "\<exists>r s pre post.
     TraverseApprovees diamond ''A'' acceptAll consumeAll ignoreMissing ignoreSolidEntryPoint
       False False (\<lambda>k. False) () = Some (r, s) \<and>
     trace s = pre @ Consume ''A'' None # post \<and>
     ((\<exists>c. Consume ''B'' c \<in> set pre) \<or> (\<exists>c. Missing ''B'' c \<in> set pre) \<or>
      Condition ''B'' (Inr False) \<in> set pre \<or> (\<not> False \<and> SolidEntryPoint ''B'' \<in> set pre)) \<and>
     ((\<exists>c. Consume ''C'' c \<in> set pre) \<or> (\<exists>c. Missing ''C'' c \<in> set pre) \<or>
      Condition ''C'' (Inr False) \<in> set pre \<or> (\<not> False \<and> SolidEntryPoint ''C'' \<in> set pre))"
proof -
  let ?rank = "\<lambda>h. if h = ''A'' then 3 else if h = ''B'' \<or> h = ''C'' then 2
    else if h = ''D'' then 1 else (0::nat)"
  let ?ta = "\<lparr>txHash = ''A'', trunkHash = ''B'', branchHash = ''C'', isTail = False\<rparr>"
  have "approveeRel diamond \<subseteq> (measure ?rank)\<inverse>"
    by (auto simp: approveeRel_def diamond_def approveeHashes_def split: if_splits)
  moreover have "acyclic ((measure ?rank)\<inverse>)"
    using wf_acyclic [OF wf_measure [of ?rank]] by simp
  ultimately have acyc: "acyclic (approveeRel diamond)" by (rule acyclic_subset [rotated])
  have tx: "GetCachedTransactionOrNil diamond ''A'' = Some ?ta" by (simp add: diamond_def)
  have "map_option (\<lambda>(r, s). Consume ''A'' None \<in> set (trace s))
      (TraverseApprovees diamond ''A'' acceptAll consumeAll ignoreMissing ignoreSolidEntryPoint
         False False (\<lambda>k. False) ()) = Some True"
    by (simp add: approvees_defs stackLoop.simps example_defs)
  then obtain r s where
    run: "TraverseApprovees diamond ''A'' acceptAll consumeAll ignoreMissing ignoreSolidEntryPoint
         False False (\<lambda>k. False) () = Some (r, s)"
    and "Consume ''A'' None \<in> set (trace s)"
    by auto
  then obtain pre post where tr: "trace s = pre @ Consume ''A'' None # post"
    by (auto dest: split_list)
  from consumed_after_approvees [OF acyc run tr tx, of "''B''"]
    consumed_after_approvees [OF acyc run tr tx, of "''C''"] run tr
  show ?thesis by (simp del: not_False_eq_True) blast
qed



section \<open>The approvee traversal returns on a finite store\<close>

text \<open>Every step that returns nil leaves less work, so the loop ends: on a store
  with finitely many transactions every call of the approvee traversal returns, whatever
  the callbacks and the abort signal do.\<close>

lemma finite_approveeUniverse:
  assumes "finite (dom (GetCachedTransactionOrNil tg))"
  shows "finite (approveeUniverse tg startTxHash)"
proof -
  have "Range (approveeRel tg) \<subseteq>
      (\<Union>x\<in>dom (GetCachedTransactionOrNil tg).
         set (approveeHashes (the (GetCachedTransactionOrNil tg x))))"
    by (auto simp: approveeRel_def)
  moreover have "finite (\<Union>x\<in>dom (GetCachedTransactionOrNil tg).
         set (approveeHashes (the (GetCachedTransactionOrNil tg x))))"
    using assms by simp
  ultimately have "finite (Range (approveeRel tg))" by (rule finite_subset)
  then show ?thesis by (simp add: approveeUniverse_def)
qed

lemma pendingWork_step:
  assumes fin: "finite (dom (GetCachedTransactionOrNil tg))"
    and run: "processStackApprovees tg condition consumer onMissingApprovee onSolidEntryPoint
      forceRelease tsep abortSignal s = (None, s1)"
    and ne: "stack s \<noteq> []"
    and inv: "tailVisited s"
  shows "tailVisited s1 \<and> pendingWork tg startTxHash s1 < pendingWork tg startTxHash s"
proof -
  let ?U = "approveeUniverse tg startTxHash"
  let ?W = "?U - dom (visited s) - set (stack s)"
  let ?W1 = "?U - dom (visited s1) - set (stack s1)"
  have finW: "finite ?W" using finite_approveeUniverse [OF fin] by simp
  from inv have tl: "\<And>h. h \<in> set (tl (stack s)) \<Longrightarrow> visited s h \<noteq> None"
    by (simp add: tailVisited_def)
  have pop: "tailVisited s1 \<and> pendingWork tg startTxHash s1 < pendingWork tg startTxHash s"
    if st: "stack s = x # rest" "stack s1 = rest"
      and v: "\<And>h. visited s h \<noteq> None \<or> h = x \<Longrightarrow> visited s1 h \<noteq> None" for x rest
  proof
    show "tailVisited s1"
      unfolding tailVisited_def
    proof
      fix h assume "h \<in> set (tl (stack s1))"
      with st have "h \<in> set (tl (stack s))" by (auto dest: in_set_tlD)
      from v [of h] tl [OF this] show "visited s1 h \<noteq> None" by blast
    qed
    have "?W1 \<subseteq> ?W" using st v by (auto simp: dom_def)
    with finW have "card ?W1 \<le> card ?W" by (rule card_mono)
    with st show "pendingWork tg startTxHash s1 < pendingWork tg startTxHash s"
      by (simp add: pendingWork_def)
  qed
  from run ne show ?thesis
  proof (cases rule: processStackApprovees_effect)
    case aborted
    then show ?thesis by simp
  next
    case (missing x rest)
    show ?thesis by (rule pop [OF missing(1,3)]) (auto simp: missing(4))
  next
    case (failed x rest t err)
    then show ?thesis by simp
  next
    case (excluded x rest t)
    show ?thesis by (rule pop [OF excluded(1,5)]) (auto simp: excluded(6))
  next
    case (consumed x rest t rs)
    show ?thesis by (rule pop [OF consumed(1,4)]) (use consumed(9) in auto)
  next
    case (pushed x rest t rs a)
    have vi: "visited s1 h = (if h \<in> set rs \<and> \<not> tsep then Some False
        else if h = x then Some True else visited s h)" for h
      using pushed(12) by blast
    have keep: "visited s1 h \<noteq> None" if "visited s h \<noteq> None \<or> h = x" for h
      using that vi [of h] by auto
    show ?thesis
    proof
      show "tailVisited s1"
        unfolding tailVisited_def
      proof
        fix h assume "h \<in> set (tl (stack s1))"
        with pushed(6) have "h = x \<or> h \<in> set rest" by simp
        with tl [of h] pushed(1) keep [of h] show "visited s1 h \<noteq> None" by auto
      qed
      have ax: "a \<noteq> x" using pushed(7) keep [of x] by auto
      have "a \<notin> set rest"
      proof
        assume "a \<in> set rest"
        with tl [of a] pushed(1) keep [of a] pushed(7) show False by simp
      qed
      moreover have "visited s a = None" using pushed(7) keep [of a] by (cases "visited s a") auto
      moreover have "a \<in> ?U"
        using pushed(2,5) by (auto simp: approveeUniverse_def approveeRel_def)
      ultimately have aW: "a \<in> ?W" using ax pushed(1) by (auto simp: dom_def)
      have "?W1 \<subseteq> ?W - {a}" using pushed(1,6) keep by (auto simp: dom_def)
      with finW have "card ?W1 \<le> card (?W - {a})" by (intro card_mono) auto
      also have "\<dots> < card ?W" using aW finW by (intro card_Diff1_less)
      finally show "pendingWork tg startTxHash s1 < pendingWork tg startTxHash s"
        using pushed(1,6) by (simp add: pendingWork_def)
    qed
  qed
qed

lemma stackLoop_terminates:
  assumes fin: "finite (dom (GetCachedTransactionOrNil tg))"
  shows "tailVisited s \<Longrightarrow>
    \<exists>y. stackLoop stack (processStackApprovees tg condition consumer onMissingApprovee
      onSolidEntryPoint forceRelease tsep abortSignal) s = Some y"
proof (induction "pendingWork tg startTxHash s" arbitrary: s rule: less_induct)
  case less
  let ?step = "processStackApprovees tg condition consumer onMissingApprovee
      onSolidEntryPoint forceRelease tsep abortSignal"
  show ?case
  proof (cases "stack s = []")
    case True
    then show ?thesis by (subst stackLoop.simps) simp
  next
    case False
    obtain e s1 where st: "?step s = (e, s1)" by (cases "?step s")
    show ?thesis
    proof (cases e)
      case (Some err)
      with False st show ?thesis by (subst stackLoop.simps) simp
    next
      case None
      with st pendingWork_step [OF fin _ False less.prems, of condition consumer
          onMissingApprovee onSolidEntryPoint forceRelease tsep abortSignal s1 startTxHash]
      have "tailVisited s1" "pendingWork tg startTxHash s1 < pendingWork tg startTxHash s"
        by simp_all
      from less.hyps [OF this(2,1)] obtain y where "stackLoop stack ?step s1 = Some y" ..
      with False st None show ?thesis by (subst stackLoop.simps) simp
    qed
  qed
qed

lemma TraverseApprovees_terminates:
  assumes "finite (dom (GetCachedTransactionOrNil tg))"
  shows "\<exists>r s. TraverseApprovees tg startTxHash condition consumer onMissingApprovee
    onSolidEntryPoint forceRelease traverseSolidEntryPoints abortSignal u = Some (r, s)"
  using stackLoop_terminates [OF assms, where
      s = "\<lparr>user = u, trace = [], polls = 0, stack = [startTxHash], visited = Map.empty\<rparr>"]
  by (simp add: TraverseApprovees_def tailVisited_def)



section \<open>The approver traversal returns when the approvers are finitely many\<close>

lemma enqueueApprovers_work:
  assumes "finite U"
  shows "set hs \<subseteq> U \<Longrightarrow>
    pendingApprovers U (enqueueApprovers hs s) \<le> pendingApprovers U s"
proof (induction hs arbitrary: s)
  case Nil
  show ?case by simp
next
  case (Cons a hs)
  show ?case
  proof (cases "a \<in> discovered s")
    case True
    with Cons show ?thesis by simp
  next
    case False
    let ?s = "emit [Enqueue a] (s\<lparr>discovered := insert a (discovered s), queue := queue s @ [a]\<rparr>)"
    from Cons have "pendingApprovers U (enqueueApprovers hs ?s) \<le> pendingApprovers U ?s" by simp
    moreover have "a \<in> U - discovered s" using Cons.prems False by simp
    then have "card (U - discovered s - {a}) < card (U - discovered s)"
      using assms by (intro card_Diff1_less) auto
    moreover have "U - insert a (discovered s) = U - discovered s - {a}" by auto
    ultimately show ?thesis using False by (simp add: pendingApprovers_def emit_def)
  qed
qed

lemma pendingApprovers_step:
  assumes fin: "finite (approverUniverse tg forceRelease startTxHash)"
    and run: "processStackApprovers tg condition consumer forceRelease abortSignal s = (None, s1)"
    and ne: "queue s \<noteq> []"
  shows "pendingApprovers (approverUniverse tg forceRelease startTxHash) s1 <
    pendingApprovers (approverUniverse tg forceRelease startTxHash) s"
proof -
  let ?U = "approverUniverse tg forceRelease startTxHash"
  from ne obtain x rest where q: "queue s = x # rest" by (cases "queue s") auto
  have sub: "set (GetApproverHashes tg x forceRelease) \<subseteq> ?U"
    by (auto simp: approverUniverse_def)
  have work: "pendingApprovers ?U (enqueueApprovers (GetApproverHashes tg x forceRelease) s')
      < pendingApprovers ?U s"
    if "discovered s' = discovered s" "queue s' = rest" for s' :: "'a approvers"
  proof -
    have "pendingApprovers ?U (enqueueApprovers (GetApproverHashes tg x forceRelease) s')
        \<le> pendingApprovers ?U s'"
      by (rule enqueueApprovers_work [OF fin sub])
    also have "\<dots> < pendingApprovers ?U s" using that q by (simp add: pendingApprovers_def)
    finally show ?thesis .
  qed
  from run have na: "\<not> abortSignal (polls s)"
    by (auto simp: processStackApprovers_def Let_def)
  from run na q obtain t where t: "GetCachedTransactionOrNil tg x = Some t"
    by (cases "GetCachedTransactionOrNil tg x") (auto simp: processStackApprovers_def Let_def)
  let ?sa = "emit [Acquire x] (s\<lparr>polls := Suc (polls s), queue := rest\<rparr>)"
  obtain e2 s2 where res: "resolvedApprovers tg condition consumer forceRelease x t ?sa = (e2, s2)"
    by (cases "resolvedApprovers tg condition consumer forceRelease x t ?sa")
  with run na q t have e2: "e2 = None" and s1: "s1 = emit [Op Engine x (Release forceRelease)] s2"
    by (auto simp: processStackApprovers_def Let_def)
  have s1w: "pendingApprovers ?U s1 = pendingApprovers ?U s2"
    by (simp add: s1 pendingApprovers_def emit_def)
  obtain r ops u where co: "condition t (user ?sa) = (r, ops, u)"
    by (cases "condition t (user ?sa)") auto
  let ?sb = "emit (Op Engine x Retain # Condition x r # map (Op Callback x) ops) (?sa\<lparr>user := u\<rparr>)"
  from res e2 co obtain b where r: "r = Inr b"
    by (cases r) (auto simp: resolvedApprovers_def Let_def)
  show ?thesis
  proof (cases b)
    case False
    with res co r have "s2 = ?sb" by (simp add: resolvedApprovers_def Let_def)
    then have "pendingApprovers ?U s2 < pendingApprovers ?U s"
      using q by (simp add: pendingApprovers_def emit_def)
    with s1w show ?thesis by simp
  next
    case True
    obtain cerr cops cu where cs: "consumer t (user ?sb) = (cerr, cops, cu)"
      by (cases "consumer t (user ?sb)") auto
    let ?sc = "emit (Op Engine x Retain # Consume x cerr # map (Op Callback x) cops)
      (?sb\<lparr>user := cu\<rparr>)"
    from res e2 co r True cs have "cerr = None"
      by (cases cerr) (auto simp: resolvedApprovers_def Let_def)
    with res co r True cs
    have "s2 = enqueueApprovers (GetApproverHashes tg x forceRelease) ?sc"
      by (simp add: resolvedApprovers_def Let_def)
    moreover have "discovered ?sc = discovered s" "queue ?sc = rest"
      by (simp_all add: emit_def)
    ultimately have "pendingApprovers ?U s2 < pendingApprovers ?U s"
      using work [of ?sc] by simp
    with s1w show ?thesis by simp
  qed
qed


lemma approversLoop_terminates:
  assumes fin: "finite (approverUniverse tg forceRelease startTxHash)"
  shows "\<exists>y. stackLoop queue (processStackApprovers tg condition consumer forceRelease
      abortSignal) s = Some y"
proof (induction "pendingApprovers (approverUniverse tg forceRelease startTxHash) s"
    arbitrary: s rule: less_induct)
  case less
  let ?step = "processStackApprovers tg condition consumer forceRelease abortSignal"
  show ?case
  proof (cases "queue s = []")
    case True
    then show ?thesis by (subst stackLoop.simps) simp
  next
    case False
    obtain e s1 where st: "?step s = (e, s1)" by (cases "?step s")
    show ?thesis
    proof (cases e)
      case (Some err)
      with False st show ?thesis by (subst stackLoop.simps) simp
    next
      case None
      with st have "?step s = (None, s1)" by simp
      from less.hyps [OF pendingApprovers_step [OF fin this False]]
      obtain y where "stackLoop queue ?step s1 = Some y" ..
      with False st None show ?thesis by (subst stackLoop.simps) simp
    qed
  qed
qed

lemma TraverseApprovers_terminates:
  assumes "finite (\<Union>h. set (GetApproverHashes tg h forceRelease))"
  shows "\<exists>r s. TraverseApprovers tg startTxHash condition consumer forceRelease abortSignal u
    = Some (r, s)"
proof -
  from assms have "finite (approverUniverse tg forceRelease startTxHash)"
    by (simp add: approverUniverse_def)
  from approversLoop_terminates [OF this] show ?thesis
    by (simp add: TraverseApprovers_def)
qed

end
